theory Spec2Isabelle
  imports Main
begin

section \<open>Text and the file system\<close>

text \<open>
  Text is a list of characters with codes below 256. A file's content is the list of its
  bytes, and the text decoded from a buffer is taken to be that same list (the line
  terminators \<open>\r\<close> and \<open>\n\<close> are single bytes under UTF-8, so line splitting does not depend
  on the decoding). Sizes and line counts are natural numbers (JavaScript numbers are exact
  below \<open>2^53\<close>).
\<close>

abbreviation LF :: char where
  "LF \<equiv> CHR 0x0A"

abbreviation CR :: char where
  "CR \<equiv> CHR 0x0D"

text \<open>
  \<open>content.split(/\r?\n/)\<close>: the separator is \<open>\r\n\<close> or a single \<open>\n\<close>; a \<open>\r\<close> that
  is not followed by \<open>\n\<close> stays in its line. The result is never empty: the empty string
  splits into one empty line.
\<close>

fun split_lines :: "string \<Rightarrow> string list" where
  "split_lines [] = [[]]"
| "split_lines (c # cs) =
     (if c = LF then [] # split_lines cs
      else if c = CR \<and> cs \<noteq> [] \<and> hd cs = LF then [] # split_lines (tl cs)
      else (case split_lines cs of
              [] \<Rightarrow> [[c]]
            | l # ls \<Rightarrow> (c # l) # ls))"

text \<open>
  \<open>if (lines.length > 0 && lines[lines.length - 1] === "") lines.pop()\<close>
\<close>

definition pop_empty_last :: "string list \<Rightarrow> string list" where
  "pop_empty_last ls = (if length ls > 0 \<and> last ls = [] then butlast ls else ls)"

text \<open>
  A path names nothing, a directory (with the size \<open>stat\<close> reports for it), or a file with
  its bytes; \<open>stat.size\<close> of a file is the number of its bytes. A file that is not
  \<open>readable\<close> can be seen by \<open>existsSync\<close> and \<open>statSync\<close>, but \<open>openSync\<close> throws on it.
\<close>

datatype node = Directory nat | RegFile (readable: bool) (content: string)

type_synonym filesystem = "string \<Rightarrow> node option"

datatype js_error = EACCES | EISDIR | ENOENT | TypeError | SyntaxError

datatype http_error = Status400 string | Status404 string | Status500 js_error

definition existsSync :: "filesystem \<Rightarrow> string \<Rightarrow> bool" where
  "existsSync fs p = (fs p \<noteq> None)"

text \<open>
  \<open>path.basename\<close> (POSIX): trailing slashes are dropped, then the part after the last
  slash is returned.
\<close>

definition strip_trailing_slashes :: "string \<Rightarrow> string" where
  "strip_trailing_slashes p = rev (dropWhile (\<lambda>c. c = CHR ''/'') (rev p))"

definition basename :: "string \<Rightarrow> string" where
  "basename p = rev (takeWhile (\<lambda>c. c \<noteq> CHR ''/'') (rev (strip_trailing_slashes p)))"

text \<open>Decimal rendering of a number, as in a template literal.\<close>

definition digit_char :: "nat \<Rightarrow> char" where
  "digit_char d = char_of (48 + d)"

fun decimal_fuel :: "nat \<Rightarrow> nat \<Rightarrow> string" where
  "decimal_fuel 0 n = [digit_char (n mod 10)]"
| "decimal_fuel (Suc k) n =
     (if n < 10 then [digit_char n] else decimal_fuel k (n div 10) @ [digit_char (n mod 10)])"

definition decimal :: "nat \<Rightarrow> string" where
  "decimal n = decimal_fuel n n"


section \<open>Multi-file merger: \<open>POST /api/read-multi\<close>\<close>

record file_marker =
  fileName :: string
  path :: string
  startLine :: nat
  lineCount :: nat

record merge_acc =
  allLines :: "string list"
  totalSize :: nat
  fileMarkers :: "file_marker list"

record merge_response =
  resp_lines :: "string list"
  resp_totalSize :: nat
  resp_fileCount :: nat
  resp_fileMarkers :: "file_marker list"
  resp_fileName :: string

definition read_cap :: nat where
  "read_cap = 10 * 1024 * 1024"

text \<open>
  \<open>fs.readSync(fd, buffer, 0, maxRead, 0)\<close>: \<open>maxRead\<close> bytes from position 0 of the file.
\<close>

definition read_head :: "string \<Rightarrow> string" where
  "read_head bytes = take (min (length bytes) read_cap) bytes"

text \<open>The body of the loop over \<open>filePaths\<close>; \<open>continue\<close> returns the accumulator as it is.\<close>

definition merge_step :: "filesystem \<Rightarrow> merge_acc \<Rightarrow> string \<Rightarrow> js_error + merge_acc" where
  "merge_step fs acc fp =
     (if \<not> existsSync fs fp then Inr acc
      else case fs fp of
        None \<Rightarrow> Inr acc
      | Some (Directory sz) \<Rightarrow> Inr acc
      | Some (RegFile ok bytes) \<Rightarrow>
          if \<not> ok then Inl EACCES
          else
            let lines = pop_empty_last (split_lines (read_head bytes)) in
            Inr \<lparr> allLines = allLines acc @ lines,
                  totalSize = totalSize acc + length bytes,
                  fileMarkers = fileMarkers acc @
                    [\<lparr> fileName = basename fp, path = fp,
                       startLine = length (allLines acc), lineCount = length lines \<rparr>] \<rparr>)"

fun merge_loop :: "filesystem \<Rightarrow> merge_acc \<Rightarrow> string list \<Rightarrow> js_error + merge_acc" where
  "merge_loop fs acc [] = Inr acc"
| "merge_loop fs acc (fp # fps) =
     (case merge_step fs acc fp of
        Inl e \<Rightarrow> Inl e
      | Inr acc' \<Rightarrow> merge_loop fs acc' fps)"

definition merge_init :: merge_acc where
  "merge_init = \<lparr> allLines = [], totalSize = 0, fileMarkers = [] \<rparr>"

definition read_multi :: "filesystem \<Rightarrow> string list \<Rightarrow> http_error + merge_response" where
  "read_multi fs filePaths =
     (if length filePaths = 0 then Inl (Status400 ''paths array is required'')
      else case merge_loop fs merge_init filePaths of
        Inl e \<Rightarrow> Inl (Status500 e)
      | Inr acc \<Rightarrow>
          Inr \<lparr> resp_lines = allLines acc,
                resp_totalSize = totalSize acc,
                resp_fileCount = length (fileMarkers acc),
                resp_fileMarkers = fileMarkers acc,
                resp_fileName =
                  (if length (fileMarkers acc) > 0
                   then decimal (length (fileMarkers acc)) @ '' files merged''
                   else ''(empty)'') \<rparr>)"

text \<open>What the merge takes from one path, and the paths it takes something from.\<close>

definition merged_file :: "filesystem \<Rightarrow> string \<Rightarrow> bool" where
  "merged_file fs p = (case fs p of Some (RegFile ok bytes) \<Rightarrow> True | _ \<Rightarrow> False)"

definition file_size :: "filesystem \<Rightarrow> string \<Rightarrow> nat" where
  "file_size fs p = (case fs p of Some (RegFile ok bytes) \<Rightarrow> length bytes | _ \<Rightarrow> 0)"

definition file_lines :: "filesystem \<Rightarrow> string \<Rightarrow> string list" where
  "file_lines fs p =
     (case fs p of
        Some (RegFile ok bytes) \<Rightarrow> pop_empty_last (split_lines (read_head bytes))
      | _ \<Rightarrow> [])"

definition prefix_starts :: "file_marker list \<Rightarrow> bool" where
  "prefix_starts ms =
     (\<forall>i<length ms. startLine (ms ! i) = sum_list (map lineCount (take i ms)))"

definition merge_inv :: "filesystem \<Rightarrow> string list \<Rightarrow> merge_acc \<Rightarrow> bool" where
  "merge_inv fs seen acc \<longleftrightarrow>
     prefix_starts (fileMarkers acc) \<and>
     sum_list (map lineCount (fileMarkers acc)) = length (allLines acc) \<and>
     map (\<lambda>m. (path m, lineCount m)) (fileMarkers acc) =
       map (\<lambda>p. (p, length (file_lines fs p))) (filter (merged_file fs) seen) \<and>
     allLines acc = concat (map (file_lines fs) seen) \<and>
     totalSize acc = sum_list (map (file_size fs) seen)"

text \<open>The last \<open>read_cap\<close> bytes of a file: what a read of the file's tail would return.\<close>

definition read_tail :: "string \<Rightarrow> string" where
  "read_tail bytes = drop (length bytes - read_cap) bytes"

definition merged_lines :: "filesystem \<Rightarrow> string list \<Rightarrow> string list option" where
  "merged_lines fs filePaths =
     (case read_multi fs filePaths of Inl e \<Rightarrow> None | Inr r \<Rightarrow> Some (resp_lines r))"

text \<open>Example file systems.\<close>

definition demo_fs :: filesystem where
  "demo_fs p =
     (if p = ''/logs'' then Some (Directory 4096)
      else if p = ''/logs/app.log.1'' then Some (RegFile True (''a'' @ [LF] @ ''b'' @ [CR, LF]))
      else if p = ''/logs/app.log'' then Some (RegFile True (''c'' @ [LF] @ ''d''))
      else None)"

definition demo_paths :: "string list" where
  "demo_paths = [''/logs/app.log.1'', ''/logs'', ''/logs/gone.log'', ''/logs/app.log'']"

definition demo_merge :: merge_response where
  "demo_merge =
     \<lparr> resp_lines = [''a'', ''b'', ''c'', ''d''],
       resp_totalSize = 8,
       resp_fileCount = 2,
       resp_fileMarkers =
         [\<lparr> fileName = ''app.log.1'', path = ''/logs/app.log.1'', startLine = 0, lineCount = 2 \<rparr>,
          \<lparr> fileName = ''app.log'', path = ''/logs/app.log'', startLine = 2, lineCount = 2 \<rparr>],
       resp_fileName = ''2 files merged'' \<rparr>"

definition big_bytes :: string where
  "big_bytes = replicate read_cap (CHR ''a'') @ ''b''"

definition big_fs :: filesystem where
  "big_fs p = (if p = ''/big.log'' then Some (RegFile True big_bytes) else None)"


section \<open>Tail engine and session coordinator: the WebSocket connection\<close>

datatype error_message = Text string | Thrown js_error

datatype server_msg =
    ErrorMsg error_message
  | TailStarted string
  | NewLines "string list"
  | Truncated
  | TailStopped

text \<open>
  What a handler does to the outside, in order: \<open>ws.send\<close>, \<open>chokidar.watch\<close> and
  \<open>watcher.close\<close>.
\<close>

datatype effect = Send server_msg | Watch string | Close string

text \<open>
  The variables of one connection. \<open>currentWatcher\<close> holds the path the watcher was created
  for (\<open>None\<close> is \<open>null\<close>).
\<close>

record session =
  currentWatcher :: "string option"
  currentFile :: "string option"
  lastSize :: nat

definition session_init :: session where
  "session_init = \<lparr> currentWatcher = None, currentFile = None, lastSize = 0 \<rparr>"

definition node_size :: "node \<Rightarrow> nat" where
  "node_size nd = (case nd of Directory sz \<Rightarrow> sz | RegFile ok bytes \<Rightarrow> length bytes)"

text \<open>
  The handler of the watcher's \<open>change\<close> event. Whatever throws inside the \<open>try\<close> is sent as
  an error and leaves \<open>lastSize\<close> as it was.
\<close>

definition on_change :: "filesystem \<Rightarrow> session \<Rightarrow> session \<times> effect list" where
  "on_change fs st =
     (case currentFile st of
        None \<Rightarrow> (st, [Send (ErrorMsg (Thrown TypeError))])
      | Some file \<Rightarrow>
     (case fs file of
        None \<Rightarrow> (st, [Send (ErrorMsg (Thrown ENOENT))])
      | Some nd \<Rightarrow>
          let newSize = node_size nd in
          if newSize > lastSize st then
            (case nd of
               Directory sz \<Rightarrow> (st, [Send (ErrorMsg (Thrown EISDIR))])
             | RegFile ok bytes \<Rightarrow>
                 if \<not> ok then (st, [Send (ErrorMsg (Thrown EACCES))])
                 else
                   let bytesToRead = newSize - lastSize st;
                       buffer = take bytesToRead (drop (lastSize st) bytes);
                       newLines = filter (\<lambda>l. l \<noteq> []) (split_lines buffer)
                   in (st\<lparr>lastSize := newSize\<rparr>,
                       if length newLines > 0 then [Send (NewLines newLines)] else []))
          else if newSize < lastSize st then
            (st\<lparr>lastSize := newSize\<rparr>, [Send Truncated])
          else (st\<lparr>lastSize := newSize\<rparr>, [])))"

text \<open>
  A message from the client: text that \<open>JSON.parse\<close> rejects (or that parses to \<open>null\<close>), or
  an object with its \<open>type\<close> and \<open>path\<close> (an absent \<open>path\<close> is the empty string, falsy like it).
\<close>

datatype client_msg = Unparsable | Message (msg_type: string) (msg_path: string)

definition tail_command :: "filesystem \<Rightarrow> session \<Rightarrow> string \<Rightarrow> session \<times> effect list" where
  "tail_command fs st p =
     (let closed = (case currentWatcher st of None \<Rightarrow> [] | Some w \<Rightarrow> [Close w]);
          st1 = st\<lparr>currentWatcher := None, currentFile := Some p\<rparr>
      in case fs p of
           None \<Rightarrow> (st1, closed @ [Send (ErrorMsg (Text ''File not found''))])
         | Some nd \<Rightarrow>
             (st1\<lparr>lastSize := node_size nd, currentWatcher := Some p\<rparr>,
              closed @ [Send (TailStarted p), Watch p]))"

definition stop_tail_command :: "session \<Rightarrow> session \<times> effect list" where
  "stop_tail_command st =
     (case currentWatcher st of
        None \<Rightarrow> (st, [])
      | Some w \<Rightarrow> (st\<lparr>currentWatcher := None\<rparr>, [Close w, Send TailStopped]))"

text \<open>
  The \<open>message\<close> handler. Its two tests on \<open>msg.type\<close> exclude each other, so they are one
  chain here.
\<close>

definition on_message :: "filesystem \<Rightarrow> session \<Rightarrow> client_msg \<Rightarrow> session \<times> effect list" where
  "on_message fs st msg =
     (case msg of
        Unparsable \<Rightarrow> (st, [Send (ErrorMsg (Thrown SyntaxError))])
      | Message ty p \<Rightarrow>
          if ty = ''tail'' \<and> p \<noteq> [] then tail_command fs st p
          else if ty = ''stop-tail'' then stop_tail_command st
          else (st, []))"

definition on_close :: "session \<Rightarrow> session \<times> effect list" where
  "on_close st =
     (case currentWatcher st of
        None \<Rightarrow> (st, [])
      | Some w \<Rightarrow> (st\<lparr>currentWatcher := None\<rparr>, [Close w]))"




definition shrunk_fs :: filesystem where
  "shrunk_fs p =
     (if p = ''/logs/app.log'' then Some (RegFile True (replicate 10 (CHR ''x''))) else None)"

definition regrown_fs :: filesystem where
  "regrown_fs p =
     (if p = ''/logs/app.log''
      then Some (RegFile True (replicate 10 (CHR ''x'') @ ''hello'' @ [LF]))
      else None)"

definition watching :: "nat \<Rightarrow> session" where
  "watching n =
     \<lparr> currentWatcher = Some ''/logs/app.log'', currentFile = Some ''/logs/app.log'',
       lastSize = n \<rparr>"


section \<open>Regular expressions\<close>

text \<open>
  The regular expression literals of the source are written as terms of \<open>rx\<close>, and matched
  with the backtracking order of JavaScript: alternatives from left to right, quantifiers
  greedy. A character of a string is a UTF-16 code unit below 256; strings with other code
  units are not represented.
\<close>

definition lower_letters :: string where
  "lower_letters = ''abcdefghijklmnopqrstuvwxyz''"

definition upper_letters :: string where
  "upper_letters = ''ABCDEFGHIJKLMNOPQRSTUVWXYZ''"

definition digits :: string where
  "digits = ''0123456789''"

text \<open>
  The canonical form of a character under the flag \<open>i\<close> (without the flag \<open>u\<close>) is its upper
  case form when that is one code unit, and not an ASCII one for a character outside
  ASCII. Below 256 this maps \<open>a\<close> to \<open>z\<close> to \<open>A\<close> to \<open>Z\<close> and the letters \<open>0xE0\<close> to \<open>0xFE\<close>
  (but \<open>0xF7\<close>, the division sign) to those \<open>0x20\<close> below them. The sharp s \<open>0xDF\<close> (upper case
  of two units) stays; the micro sign \<open>0xB5\<close> and \<open>0xFF\<close> have upper case forms above 255 that no
  other character below 256 shares, so they are written as their own canonical forms.
\<close>

definition latin1_lower :: string where
  "latin1_lower = [
        CHR 0xE0, CHR 0xE1, CHR 0xE2, CHR 0xE3, CHR 0xE4, CHR 0xE5, CHR 0xE6, CHR 0xE7,
        CHR 0xE8, CHR 0xE9, CHR 0xEA, CHR 0xEB, CHR 0xEC, CHR 0xED, CHR 0xEE, CHR 0xEF,
        CHR 0xF0, CHR 0xF1, CHR 0xF2, CHR 0xF3, CHR 0xF4, CHR 0xF5, CHR 0xF6, CHR 0xF8,
        CHR 0xF9, CHR 0xFA, CHR 0xFB, CHR 0xFC, CHR 0xFD, CHR 0xFE]"

definition latin1_upper :: string where
  "latin1_upper = [
        CHR 0xC0, CHR 0xC1, CHR 0xC2, CHR 0xC3, CHR 0xC4, CHR 0xC5, CHR 0xC6, CHR 0xC7,
        CHR 0xC8, CHR 0xC9, CHR 0xCA, CHR 0xCB, CHR 0xCC, CHR 0xCD, CHR 0xCE, CHR 0xCF,
        CHR 0xD0, CHR 0xD1, CHR 0xD2, CHR 0xD3, CHR 0xD4, CHR 0xD5, CHR 0xD6, CHR 0xD8,
        CHR 0xD9, CHR 0xDA, CHR 0xDB, CHR 0xDC, CHR 0xDD, CHR 0xDE]"

definition to_upper :: "char \<Rightarrow> char" where
  "to_upper c =
     (case map_of (zip (lower_letters @ latin1_lower) (upper_letters @ latin1_upper)) c of
        Some u \<Rightarrow> u
      | None \<Rightarrow> c)"

definition to_lower :: "char \<Rightarrow> char" where
  "to_lower c =
     (case map_of (zip (upper_letters @ latin1_upper) (lower_letters @ latin1_lower)) c of
        Some l \<Rightarrow> l
      | None \<Rightarrow> c)"

text \<open>
  A set of characters is given by its members, or as the complement of such a set. The
  ranges of the source are written out: \<open>[0-9]\<close> and \<open>\d\<close> are \<open>Chars digits\<close>, \<open>[a-z]\<close> is
  \<open>Chars lower_letters\<close>; \<open>\s\<close> is \<open>Chars spaces\<close> and \<open>\w\<close> is \<open>Chars word_chars\<close>.
\<close>

datatype cset = Chars string | NotChars string

definition spaces :: string where
  "spaces = [CHR 0x09, LF, CHR 0x0B, CHR 0x0C, CR, CHR '' '', CHR 0xA0]"

definition word_chars :: string where
  "word_chars = lower_letters @ upper_letters @ digits @ ''_''"

text \<open>
  With the flag \<open>i\<close>, a character is in a set when the set has a member of the same
  canonical (upper case) form; the complement is taken after that.
\<close>

definition in_chars :: "bool \<Rightarrow> string \<Rightarrow> char \<Rightarrow> bool" where
  "in_chars ic cs x = (if ic then to_upper x \<in> set (map to_upper cs) else x \<in> set cs)"

fun cset_mem :: "bool \<Rightarrow> cset \<Rightarrow> char \<Rightarrow> bool" where
  "cset_mem ic (Chars cs) x = in_chars ic cs x"
| "cset_mem ic (NotChars cs) x = (\<not> in_chars ic cs x)"

datatype rx =
    Eps
  | Chr cset
  | AnyChar
  | Bol
  | Eol
  | Seq rx rx
  | Alt rx rx
  | Star rx
  | Group nat rx

text \<open>
  A state of the matcher: the number of characters before the current position, the rest
  of the input, and the captures made so far (the latest first).
\<close>

type_synonym mstate = "nat \<times> string \<times> (nat \<times> string) list"

text \<open>
  A greedy star: one more iteration first, then stopping here. An iteration that consumes
  nothing is rejected, so the length of the rest bounds the number of iterations.
\<close>

fun star_run :: "nat \<Rightarrow> (mstate \<Rightarrow> mstate list) \<Rightarrow> mstate \<Rightarrow> mstate list" where
  "star_run 0 f st = [st]"
| "star_run (Suc k) f st =
     concat (map (star_run k f) (filter (\<lambda>st'. fst st < fst st') (f st))) @ [st]"

text \<open>All the ways \<open>r\<close> matches at a state, in the order backtracking tries them.\<close>

fun rx_run :: "bool \<Rightarrow> rx \<Rightarrow> mstate \<Rightarrow> mstate list" where
  "rx_run ic Eps st = [st]"
| "rx_run ic (Chr cs) (n, [], caps) = []"
| "rx_run ic (Chr cs) (n, x # xs, caps) = (if cset_mem ic cs x then [(Suc n, xs, caps)] else [])"
| "rx_run ic AnyChar (n, [], caps) = []"
| "rx_run ic AnyChar (n, x # xs, caps) = (if x = LF \<or> x = CR then [] else [(Suc n, xs, caps)])"
| "rx_run ic Bol (n, s, caps) = (if n = 0 then [(n, s, caps)] else [])"
| "rx_run ic Eol (n, s, caps) = (if s = [] then [(n, s, caps)] else [])"
| "rx_run ic (Seq a b) st = concat (map (rx_run ic b) (rx_run ic a st))"
| "rx_run ic (Alt a b) st = rx_run ic a st @ rx_run ic b st"
| "rx_run ic (Star a) (n, s, caps) = star_run (length s) (rx_run ic a) (n, s, caps)"
| "rx_run ic (Group k a) (n, s, caps) =
     map (\<lambda>(n', s', caps'). (n', s', (k, take (n' - n) s) # caps')) (rx_run ic a (n, s, caps))"

text \<open>Derived forms: a string of pattern characters, \<open>r+\<close>, \<open>r?\<close>, \<open>r{n}\<close> and \<open>r{lo,hi}\<close>.\<close>

definition Lit :: "char \<Rightarrow> rx" where
  "Lit c = Chr (Chars [c])"

fun Str :: "string \<Rightarrow> rx" where
  "Str [] = Eps"
| "Str [c] = Lit c"
| "Str (c # cs) = Seq (Lit c) (Str cs)"

definition Plus :: "rx \<Rightarrow> rx" where
  "Plus r = Seq r (Star r)"

definition Opt :: "rx \<Rightarrow> rx" where
  "Opt r = Alt r Eps"

fun Times :: "nat \<Rightarrow> rx \<Rightarrow> rx" where
  "Times 0 r = Eps"
| "Times (Suc n) r = Seq r (Times n r)"

fun Upto :: "nat \<Rightarrow> rx \<Rightarrow> rx" where
  "Upto 0 r = Eps"
| "Upto (Suc n) r = Opt (Seq r (Upto n r))"

definition Rep :: "nat \<Rightarrow> nat \<Rightarrow> rx \<Rightarrow> rx" where
  "Rep lo hi r = Seq (Times lo r) (Upto (hi - lo) r)"

fun Seqs :: "rx list \<Rightarrow> rx" where
  "Seqs [] = Eps"
| "Seqs [r] = r"
| "Seqs (r # rs) = Seq r (Seqs rs)"

fun Alts :: "rx list \<Rightarrow> rx" where
  "Alts [] = Eps"
| "Alts [r] = r"
| "Alts (r # rs) = Alt r (Alts rs)"

text \<open>
  \<open>regex.exec(s)\<close> without the flags \<open>g\<close> and \<open>y\<close>: the first way to match at the leftmost
  position that has one. The result is the index of the match, the matched text and the
  captures.
\<close>

record rx_match =
  m_index :: nat
  m_text :: string
  m_groups :: "(nat \<times> string) list"

fun rx_search :: "bool \<Rightarrow> rx \<Rightarrow> nat \<Rightarrow> string \<Rightarrow> mstate list \<Rightarrow> rx_match option" where
  "rx_search ic r n s ((n', s', caps) # rest) =
     Some \<lparr> m_index = n, m_text = take (n' - n) s, m_groups = caps \<rparr>"
| "rx_search ic r n [] [] = None"
| "rx_search ic r n (x # xs) [] = rx_search ic r (Suc n) xs (rx_run ic r (Suc n, xs, []))"

definition rx_exec :: "bool \<Rightarrow> rx \<Rightarrow> string \<Rightarrow> rx_match option" where
  "rx_exec ic r s = rx_search ic r 0 s (rx_run ic r (0, s, []))"

definition rx_test :: "bool \<Rightarrow> rx \<Rightarrow> string \<Rightarrow> bool" where
  "rx_test ic r s = (case rx_exec ic r s of None \<Rightarrow> False | Some m \<Rightarrow> True)"

text \<open>\<open>match[k]\<close>: the text of group \<open>k\<close>, \<open>None\<close> when the group took no part (\<open>undefined\<close>).\<close>

definition group :: "rx_match \<Rightarrow> nat \<Rightarrow> string option" where
  "group m k = map_of (m_groups m) k"

text \<open>\<open>parseInt(s, 10)\<close> on a string of decimal digits.\<close>

definition digit_value :: "char \<Rightarrow> int" where
  "digit_value c = int (length (takeWhile (\<lambda>d. d \<noteq> c) digits))"

definition parse_digits :: "string \<Rightarrow> int" where
  "parse_digits s = foldl (\<lambda>acc c. 10 * acc + digit_value c) 0 s"


section \<open>JavaScript objects used as dictionaries, and \<open>Array.prototype.sort\<close>\<close>

text \<open>
  An object created by \<open>{}\<close> is the list of its own properties in the order they were
  added. Reading a key that is not an own property finds the property of that name of
  \<open>Object.prototype\<close>, if there is one.
\<close>

type_synonym 'v js_object = "(string \<times> 'v) list"

definition object_prototype_keys :: "string list" where
  "object_prototype_keys =
     [''constructor'', ''__defineGetter__'', ''__defineSetter__'', ''hasOwnProperty'',
      ''__lookupGetter__'', ''__lookupSetter__'', ''isPrototypeOf'', ''propertyIsEnumerable'',
      ''toString'', ''valueOf'', ''__proto__'', ''toLocaleString'']"

text \<open>
  \<open>Object.entries\<close>: the keys that are array indices (canonical decimal numerals below
  \<open>2^32 - 1\<close>) come first, in ascending order, then the other keys in insertion order.
\<close>

definition is_array_index :: "string \<Rightarrow> bool" where
  "is_array_index k \<longleftrightarrow>
     k \<noteq> [] \<and> set k \<subseteq> set digits \<and> (k = ''0'' \<or> hd k \<noteq> CHR ''0'') \<and>
     parse_digits k < 4294967295"

definition object_entries :: "'v js_object \<Rightarrow> (string \<times> 'v) list" where
  "object_entries kvs =
     sort_key (\<lambda>kv. parse_digits (fst kv)) (filter (\<lambda>kv. is_array_index (fst kv)) kvs) @
     filter (\<lambda>kv. \<not> is_array_index (fst kv)) kvs"

text \<open>
  \<open>xs.sort(cmp)\<close> is stable: an element goes before the first one it is strictly less than.
\<close>

fun insert_sorted :: "('a \<Rightarrow> 'a \<Rightarrow> int) \<Rightarrow> 'a \<Rightarrow> 'a list \<Rightarrow> 'a list" where
  "insert_sorted cmp x [] = [x]"
| "insert_sorted cmp x (y # ys) =
     (if cmp x y < 0 then x # y # ys else y # insert_sorted cmp x ys)"

definition array_sort :: "('a \<Rightarrow> 'a \<Rightarrow> int) \<Rightarrow> 'a list \<Rightarrow> 'a list" where
  "array_sort cmp xs = foldl (\<lambda>acc x. insert_sorted cmp x acc) [] xs"

text \<open>\<open>[...new Set(xs)]\<close>: the first occurrence of every element, in order.\<close>

definition unique :: "'a list \<Rightarrow> 'a list" where
  "unique xs = rev (remdups (rev xs))"


section \<open>File grouper: \<open>POST /api/scan\<close>\<close>

text \<open>\<open>(log|txt|out|err)\<close>\<close>

definition extensions :: rx where
  "extensions = Alts [Str ''log'', Str ''txt'', Str ''out'', Str ''err'']"

text \<open>\<open>/\.(log|txt|out|err)(\.[0-9]+)?$/i\<close>\<close>

definition LOG_FILE_REGEX :: rx where
  "LOG_FILE_REGEX =
     Seqs [Lit (CHR ''.''), Group 1 extensions,
           Opt (Group 2 (Seq (Lit (CHR ''.'')) (Plus (Chr (Chars digits))))), Eol]"

text \<open>\<open>/\.log\.[a-z]+$/i\<close>\<close>

definition LOG_OWNER_REGEX :: rx where
  "LOG_OWNER_REGEX =
     Seqs [Lit (CHR ''.''), Str ''log'', Lit (CHR ''.''), Plus (Chr (Chars lower_letters)), Eol]"

text \<open>\<open>/^(.+)\.(log|txt|out|err)\.([0-9]+)$/i\<close>\<close>

definition ROLLED_REGEX :: rx where
  "ROLLED_REGEX =
     Seqs [Bol, Group 1 (Plus AnyChar), Lit (CHR ''.''), Group 2 extensions, Lit (CHR ''.''),
           Group 3 (Plus (Chr (Chars digits))), Eol]"

text \<open>\<open>/^(.+)\.(log|txt|out|err)$/i\<close>\<close>

definition BASE_REGEX :: rx where
  "BASE_REGEX = Seqs [Bol, Group 1 (Plus AnyChar), Lit (CHR ''.''), Group 2 extensions, Eol]"

text \<open>\<open>/\.([0-9]+)$/\<close>\<close>

definition ROLL_REGEX :: rx where
  "ROLL_REGEX = Seqs [Lit (CHR ''.''), Group 1 (Plus (Chr (Chars digits))), Eol]"

record log_file =
  name :: string
  fpath :: string
  dir :: string
  relativePath :: string
  sourceFolder :: string
  fsize :: nat
  modified :: nat

text \<open>
  What the scan asks of the outside: \<open>path.resolve\<close>, \<open>fs.existsSync\<close>, \<open>glob\<close> (the files
  under a folder, as absolute paths), \<open>fs.statSync\<close> (size and modification time in
  milliseconds, \<open>None\<close> when it throws), \<open>path.dirname\<close> and \<open>path.relative\<close>.
\<close>

record scan_env =
  env_resolve :: "string \<Rightarrow> string"
  env_exists :: "string \<Rightarrow> bool"
  env_glob :: "string \<Rightarrow> string list"
  env_stat :: "string \<Rightarrow> (nat \<times> nat) option"
  env_dirname :: "string \<Rightarrow> string"
  env_relative :: "string \<Rightarrow> string \<Rightarrow> string"

text \<open>The file eligibility rule of the scan.\<close>

definition scan_eligible :: "string \<Rightarrow> bool" where
  "scan_eligible nm \<longleftrightarrow> rx_test True LOG_FILE_REGEX nm \<and> \<not> rx_test True LOG_OWNER_REGEX nm"

text \<open>The body of the loop over \<open>found\<close>: what one path adds to \<open>allFiles\<close>.\<close>

definition scan_file :: "scan_env \<Rightarrow> string \<Rightarrow> string \<Rightarrow> log_file list" where
  "scan_file env resolved filePath =
     (let nm = basename filePath in
      if \<not> rx_test True LOG_FILE_REGEX nm then []
      else if rx_test True LOG_OWNER_REGEX nm then []
      else case env_stat env filePath of
        None \<Rightarrow> []
      | Some (sz, mtime) \<Rightarrow>
          [\<lparr> name = nm, fpath = filePath, dir = env_dirname env filePath,
             relativePath = env_relative env resolved filePath, sourceFolder = resolved,
             fsize = sz, modified = mtime \<rparr>])"

definition scan_folder :: "scan_env \<Rightarrow> string \<Rightarrow> log_file list" where
  "scan_folder env folder =
     (let resolved = env_resolve env folder in
      if \<not> env_exists env resolved then []
      else concat (map (scan_file env resolved) (env_glob env resolved)))"

definition scan_collect :: "scan_env \<Rightarrow> string list \<Rightarrow> log_file list" where
  "scan_collect env folders = concat (map (scan_folder env) folders)"

text \<open>
  \<open>match[k]\<close> used as a string. Group 1 takes part in every match of the expressions it is
  used with; \<open>undefined\<close> would be the key \<open>undefined\<close>.
\<close>

definition group_text :: "rx_match \<Rightarrow> nat \<Rightarrow> string" where
  "group_text m k = (case group m k of Some g \<Rightarrow> g | None \<Rightarrow> ''undefined'')"

definition group_key :: "string \<Rightarrow> string" where
  "group_key nm =
     (case rx_exec True ROLLED_REGEX nm of
        Some rolledMatch \<Rightarrow> group_text rolledMatch 1
      | None \<Rightarrow>
          (case rx_exec True BASE_REGEX nm of
             Some baseMatch \<Rightarrow> group_text baseMatch 1
           | None \<Rightarrow> nm))"

text \<open>
  \<open>if (!groups[groupKey]) groups[groupKey] = {groupName: groupKey, files: []};
  groups[groupKey].files.push(file)\<close>. For a key that \<open>Object.prototype\<close> has, the test finds the
  inherited property, no group is made, and \<open>.files.push\<close> throws a \<open>TypeError\<close>.
\<close>

definition add_to_group :: "log_file list js_object \<Rightarrow> log_file \<Rightarrow> js_error + log_file list js_object" where
  "add_to_group groups file =
     (let groupKey = group_key (name file) in
      case map_of groups groupKey of
        Some fs \<Rightarrow> Inr (map (\<lambda>(k, v). if k = groupKey then (k, v @ [file]) else (k, v)) groups)
      | None \<Rightarrow>
          if groupKey \<in> set object_prototype_keys then Inl TypeError
          else Inr (groups @ [(groupKey, [file])]))"

fun group_files :: "log_file list js_object \<Rightarrow> log_file list \<Rightarrow> js_error + log_file list js_object" where
  "group_files groups [] = Inr groups"
| "group_files groups (file # rest) =
     (case add_to_group groups file of
        Inl e \<Rightarrow> Inl e
      | Inr groups' \<Rightarrow> group_files groups' rest)"

text \<open>
  The rotation number of a name: the number after its last dot, 0 without one. (The
  numbers are exact integers here; JavaScript rounds those above \<open>2^53\<close>.)
\<close>

definition roll_number :: "string \<Rightarrow> int" where
  "roll_number nm =
     (case rx_exec False ROLL_REGEX nm of
        Some m \<Rightarrow> parse_digits (group_text m 1)
      | None \<Rightarrow> 0)"

definition by_roll_desc :: "log_file \<Rightarrow> log_file \<Rightarrow> int" where
  "by_roll_desc a b = roll_number (name b) - roll_number (name a)"

record log_group =
  groupName :: string
  files :: "log_file list"
  fileCount :: nat
  group_totalSize :: nat
  lastModified :: nat
  directories :: "string list"

definition make_group :: "string \<times> log_file list \<Rightarrow> log_group" where
  "make_group entry =
     (let sorted_files = array_sort by_roll_desc (snd entry) in
      \<lparr> groupName = fst entry,
        files = sorted_files,
        fileCount = length sorted_files,
        group_totalSize = foldl (\<lambda>sum f. sum + fsize f) 0 sorted_files,
        lastModified =
          foldl (\<lambda>latest f. if modified f > latest then modified f else latest) 0 sorted_files,
        directories = unique (map dir sorted_files) \<rparr>)"

text \<open>
  The groups of the response, from \<open>allFiles\<close>. \<open>collate a b\<close> is
  \<open>a.localeCompare(b, undefined, {sensitivity: "base"})\<close>.
\<close>

definition scan_groups :: "(string \<Rightarrow> string \<Rightarrow> int) \<Rightarrow> log_file list \<Rightarrow> js_error + log_group list" where
  "scan_groups collate allFiles =
     (case group_files [] allFiles of
        Inl e \<Rightarrow> Inl e
      | Inr groups \<Rightarrow>
          Inr (array_sort (\<lambda>a b. collate (groupName a) (groupName b))
                 (map make_group (object_entries groups))))"

record scan_response =
  resp_groups :: "log_group list"
  totalFiles :: nat
  totalGroups :: nat

definition scan :: "(string \<Rightarrow> string \<Rightarrow> int) \<Rightarrow> scan_env \<Rightarrow> string list \<Rightarrow> http_error + scan_response" where
  "scan collate env folders =
     (if length folders = 0 then Inl (Status400 ''folders array is required'')
      else
        let allFiles = scan_collect env folders in
        case scan_groups collate allFiles of
          Inl e \<Rightarrow> Inl (Status500 e)
        | Inr result \<Rightarrow>
            Inr \<lparr> resp_groups = result, totalFiles = length allFiles, totalGroups = length result \<rparr>)"


section \<open>Single-directory listing: \<open>POST /api/browse\<close>\<close>

text \<open>\<open>/\.(log|txt|out|err)(\.[0-9]+)?$|\.log\.[a-z]+$/i\<close>\<close>

definition BROWSE_LOG_FILE_REGEX :: rx where
  "BROWSE_LOG_FILE_REGEX =
     Alt (Seqs [Lit (CHR ''.''), Group 1 extensions,
                Opt (Group 2 (Seq (Lit (CHR ''.'')) (Plus (Chr (Chars digits))))), Eol])
         (Seqs [Lit (CHR ''.''), Str ''log'', Lit (CHR ''.''), Plus (Chr (Chars lower_letters)),
                Eol])"

text \<open>\<open>/^(.+\.log)\.([0-9]+)$/i\<close>\<close>

definition BROWSE_ROLLED_REGEX :: rx where
  "BROWSE_ROLLED_REGEX =
     Seqs [Bol, Group 1 (Seqs [Plus AnyChar, Lit (CHR ''.''), Str ''log'']), Lit (CHR ''.''),
           Group 2 (Plus (Chr (Chars digits))), Eol]"

text \<open>
  \<open>str.replace(/[.*+?^${}()|[\]\\]/g, "\\$&")\<close>: a backslash before each of these characters.
\<close>

definition backslash :: char where
  "backslash = CHR 0x5C"

definition regex_specials :: string where
  "regex_specials = ''.*+?^${}()|[]'' @ [backslash]"

definition escapeRegex :: "string \<Rightarrow> string" where
  "escapeRegex str =
     concat (map (\<lambda>c. if c \<in> set regex_specials then [backslash, c] else [c]) str)"

text \<open>
  \<open>new RegExp(`^${escapeRegex(name)}\\.[0-9]+$`, "i")\<close>: the escaped name stands for the
  characters of the name.
\<close>

definition rolled_sibling_regex :: "string \<Rightarrow> rx" where
  "rolled_sibling_regex nm =
     Seqs [Bol, Str nm, Lit (CHR ''.''), Plus (Chr (Chars digits)), Eol]"

text \<open>
  The entries of a directory, and the folders and files of the response (their constant
  \<open>type\<close> tags are left out).
\<close>

record dir_entry =
  entry_name :: string
  entry_isDirectory :: bool

record browse_folder =
  folder_name :: string
  folder_path :: string

record browse_file =
  bf_name :: string
  bf_path :: string
  bf_size :: nat
  bf_modified :: nat

text \<open>
  What the listing asks of the outside: \<open>process.cwd()\<close>, \<open>path.resolve\<close>, \<open>fs.existsSync\<close>,
  \<open>statSync(p).isDirectory()\<close>, \<open>fs.readdirSync\<close> and \<open>fs.statSync\<close> (\<open>None\<close> when they throw),
  \<open>path.join\<close> and \<open>path.dirname\<close>.
\<close>

record browse_env =
  b_cwd :: string
  b_resolve :: "string \<Rightarrow> string"
  b_exists :: "string \<Rightarrow> bool"
  b_isDirectory :: "string \<Rightarrow> bool"
  b_readdir :: "string \<Rightarrow> dir_entry list option"
  b_stat :: "string \<Rightarrow> (nat \<times> nat) option"
  b_join :: "string \<Rightarrow> string \<Rightarrow> string"
  b_dirname :: "string \<Rightarrow> string"

definition is_hidden :: "string \<Rightarrow> bool" where
  "is_hidden nm \<longleftrightarrow> (case nm of [] \<Rightarrow> False | c # cs \<Rightarrow> c = CHR ''.'')"

text \<open>The file eligibility rule of the listing (for an entry that is not a directory).\<close>

definition browse_eligible :: "string \<Rightarrow> bool" where
  "browse_eligible nm \<longleftrightarrow> \<not> is_hidden nm \<and> rx_test True BROWSE_LOG_FILE_REGEX nm"

text \<open>The loop over the directory entries.\<close>

fun browse_entries ::
  "browse_env \<Rightarrow> string \<Rightarrow> browse_folder list \<times> browse_file list \<Rightarrow> dir_entry list \<Rightarrow>
   js_error + browse_folder list \<times> browse_file list" where
  "browse_entries env resolved (folders, fls) [] = Inr (folders, fls)"
| "browse_entries env resolved (folders, fls) (entry # rest) =
     (if is_hidden (entry_name entry) then browse_entries env resolved (folders, fls) rest
      else if entry_isDirectory entry then
        browse_entries env resolved
          (folders @ [\<lparr> folder_name = entry_name entry,
                         folder_path = b_join env resolved (entry_name entry) \<rparr>], fls) rest
      else if rx_test True BROWSE_LOG_FILE_REGEX (entry_name entry) then
        (case b_stat env (b_join env resolved (entry_name entry)) of
           None \<Rightarrow> Inl ENOENT
         | Some (sz, mtime) \<Rightarrow>
             browse_entries env resolved
               (folders,
                fls @ [\<lparr> bf_name = entry_name entry,
                         bf_path = b_join env resolved (entry_name entry),
                         bf_size = sz, bf_modified = mtime \<rparr>]) rest)
      else browse_entries env resolved (folders, fls) rest)"

text \<open>A group under construction: \<open>{base, rolled}\<close>; a rolled file carries its \<open>rollNumber\<close>.\<close>

record rolled_group =
  base :: "browse_file option"
  rolled :: "(browse_file \<times> int) list"

definition update_key :: "string \<Rightarrow> ('v \<Rightarrow> 'v) \<Rightarrow> 'v js_object \<Rightarrow> 'v js_object" where
  "update_key key f obj = map (\<lambda>(k, v). if k = key then (k, f v) else (k, v)) obj"

text \<open>
  The body of the loop that groups the rolled files. A key that \<open>Object.prototype\<close> has is
  found by \<open>groups[key]\<close>: \<open>.rolled.push\<close> then throws, and \<open>.base = file\<close> sets a property
  of the inherited value, not of \<open>groups\<close>.
\<close>

definition browse_group_step ::
  "browse_file list \<Rightarrow> rolled_group js_object \<times> browse_file list \<Rightarrow> browse_file \<Rightarrow>
   js_error + rolled_group js_object \<times> browse_file list" where
  "browse_group_step fls acc file =
     (let groups = fst acc; standalone = snd acc in
      case rx_exec True BROWSE_ROLLED_REGEX (bf_name file) of
        Some rolledMatch \<Rightarrow>
          (let baseName = group_text rolledMatch 1;
               entry = (file, parse_digits (group_text rolledMatch 2))
           in case map_of groups baseName of
                Some g \<Rightarrow>
                  Inr (update_key baseName (\<lambda>g. g\<lparr>rolled := rolled g @ [entry]\<rparr>) groups,
                       standalone)
              | None \<Rightarrow>
                  if baseName \<in> set object_prototype_keys then Inl TypeError
                  else Inr (groups @ [(baseName, \<lparr> base = None, rolled = [entry] \<rparr>)],
                            standalone))
      | None \<Rightarrow>
          (let hasRolled =
                 list_ex (\<lambda>f. rx_test True (rolled_sibling_regex (bf_name file)) (bf_name f)) fls
           in if hasRolled then
                (case map_of groups (bf_name file) of
                   Some g \<Rightarrow>
                     Inr (update_key (bf_name file) (\<lambda>g. g\<lparr>base := Some file\<rparr>) groups,
                          standalone)
                 | None \<Rightarrow>
                     if bf_name file \<in> set object_prototype_keys then Inr (groups, standalone)
                     else Inr (groups @ [(bf_name file, \<lparr> base = Some file, rolled = [] \<rparr>)],
                               standalone))
              else Inr (groups, standalone @ [file])))"

fun browse_group_loop ::
  "browse_file list \<Rightarrow> rolled_group js_object \<times> browse_file list \<Rightarrow> browse_file list \<Rightarrow>
   js_error + rolled_group js_object \<times> browse_file list" where
  "browse_group_loop fls acc [] = Inr acc"
| "browse_group_loop fls acc (file # rest) =
     (case browse_group_step fls acc file of
        Inl e \<Rightarrow> Inl e
      | Inr acc' \<Rightarrow> browse_group_loop fls acc' rest)"

record file_group =
  baseName :: string
  group_files_list :: "(browse_file \<times> int option) list"
  group_fileCount :: nat
  group_size :: nat
  group_base :: "(browse_file \<times> int option) option"

definition make_file_group :: "string \<times> rolled_group \<Rightarrow> file_group" where
  "make_file_group entry =
     (let sorted_rolled = array_sort (\<lambda>a b. snd a - snd b) (rolled (snd entry));
          allFiles = rev (map (\<lambda>(f, n). (f, Some n)) sorted_rolled) @
                     (case base (snd entry) of None \<Rightarrow> [] | Some b \<Rightarrow> [(b, None)])
      in \<lparr> baseName = fst entry,
           group_files_list = allFiles,
           group_fileCount = length allFiles,
           group_size = foldl (\<lambda>sum f. sum + bf_size (fst f)) 0 allFiles,
           group_base =
             (case base (snd entry) of
                Some b \<Rightarrow> Some (b, None)
              | None \<Rightarrow> (case sorted_rolled of [] \<Rightarrow> None | (f, n) # rest \<Rightarrow> Some (f, Some n))) \<rparr>)"

record browse_response =
  current :: string
  parent :: string
  resp_folders :: "browse_folder list"
  resp_files :: "browse_file list"
  fileGroups :: "file_group list"

text \<open>The handler; \<open>collate a b\<close> is \<open>a.localeCompare(b)\<close>.\<close>

definition browse :: "(string \<Rightarrow> string \<Rightarrow> int) \<Rightarrow> browse_env \<Rightarrow> string \<Rightarrow> http_error + browse_response" where
  "browse collate env body_path =
     (let dirPath = (if body_path = [] then b_cwd env else body_path);
          resolved = b_resolve env dirPath
      in if \<not> b_exists env resolved then Inl (Status404 ''Directory not found'')
         else if \<not> b_isDirectory env resolved then Inl (Status400 ''Path is not a directory'')
         else case b_readdir env resolved of
           None \<Rightarrow> Inl (Status500 EACCES)
         | Some entries \<Rightarrow>
        (case browse_entries env resolved ([], []) entries of
           Inl e \<Rightarrow> Inl (Status500 e)
         | Inr (folders0, files0) \<Rightarrow>
             let folders = array_sort (\<lambda>a b. collate (folder_name a) (folder_name b)) folders0;
                 fls = array_sort (\<lambda>a b. collate (bf_name a) (bf_name b)) files0
             in case browse_group_loop fls ([], []) fls of
                  Inl e \<Rightarrow> Inl (Status500 e)
                | Inr (groups, standalone) \<Rightarrow>
                    Inr \<lparr> current = resolved,
                          parent = b_dirname env resolved,
                          resp_folders = folders,
                          resp_files = standalone,
                          fileGroups =
                            array_sort (\<lambda>a b. collate (baseName a) (baseName b))
                              (map make_file_group (object_entries groups)) \<rparr>))"

text \<open>
  The names held by the accumulator of the grouping loop: those of the standalone files
  and, for every group, those of its rolled files and of its base. In every group made by
  the loop the base, when there is one, has the key of the group as its name.
\<close>

definition names_of_group :: "rolled_group \<Rightarrow> string list" where
  "names_of_group g =
     map (\<lambda>e. bf_name (fst e)) (rolled g) @
     (case base g of None \<Rightarrow> [] | Some b \<Rightarrow> [bf_name b])"

definition object_names :: "rolled_group js_object \<Rightarrow> string list" where
  "object_names gs = concat (map (\<lambda>kv. names_of_group (snd kv)) gs)"

definition group_names :: "rolled_group js_object \<times> browse_file list \<Rightarrow> string set" where
  "group_names acc = set (map bf_name (snd acc)) \<union> set (object_names (fst acc))"

definition base_named :: "rolled_group js_object \<Rightarrow> bool" where
  "base_named gs \<longleftrightarrow> (\<forall>kv\<in>set gs. \<forall>b. base (snd kv) = Some b \<longrightarrow> bf_name b = fst kv)"

text \<open>The names of the files in a listing, alone or in a group, and in a scan.\<close>

definition listed_names :: "(string \<Rightarrow> string \<Rightarrow> int) \<Rightarrow> browse_env \<Rightarrow> string \<Rightarrow> string list" where
  "listed_names collate env body_path =
     (case browse collate env body_path of
        Inl e \<Rightarrow> []
      | Inr r \<Rightarrow>
          map bf_name (resp_files r) @
          concat (map (\<lambda>g. map (\<lambda>f. bf_name (fst f)) (group_files_list g)) (fileGroups r)))"

definition scanned_names :: "(string \<Rightarrow> string \<Rightarrow> int) \<Rightarrow> scan_env \<Rightarrow> string list \<Rightarrow> string list" where
  "scanned_names collate env folders =
     (case scan collate env folders of
        Inl e \<Rightarrow> []
      | Inr r \<Rightarrow> concat (map (\<lambda>g. map name (files g)) (resp_groups r)))"

text \<open>An example collation: the order of the character codes of the lower-cased strings.\<close>

fun code_order :: "string \<Rightarrow> string \<Rightarrow> int" where
  "code_order [] [] = 0"
| "code_order [] (y # ys) = - 1"
| "code_order (x # xs) [] = 1"
| "code_order (x # xs) (y # ys) =
     (if (of_char x :: nat) < of_char y then - 1
      else if (of_char y :: nat) < of_char x then 1
      else code_order xs ys)"

definition demo_collate :: "string \<Rightarrow> string \<Rightarrow> int" where
  "demo_collate a b = code_order (map to_lower a) (map to_lower b)"

text \<open>An example directory, for the listing and for the scan.\<close>

definition demo_names :: "string list" where
  "demo_names = [''app.log.1'', ''app.log'', ''app.log.owner'', ''notes.md'', ''app.log.2'']"

definition demo_browse_env :: browse_env where
  "demo_browse_env =
     \<lparr> b_cwd = ''/logs'',
       b_resolve = (\<lambda>p. p),
       b_exists = (\<lambda>p. p = ''/logs''),
       b_isDirectory = (\<lambda>p. p = ''/logs''),
       b_readdir = (\<lambda>p. if p = ''/logs''
                         then Some (map (\<lambda>n. \<lparr> entry_name = n, entry_isDirectory = False \<rparr>) demo_names)
                         else None),
       b_stat = (\<lambda>p. Some (length p, 1000)),
       b_join = (\<lambda>d n. d @ ''/'' @ n),
       b_dirname = (\<lambda>p. ''/'') \<rparr>"

definition demo_browse_file :: "string \<Rightarrow> browse_file" where
  "demo_browse_file nm =
     \<lparr> bf_name = nm, bf_path = ''/logs/'' @ nm, bf_size = 6 + length nm, bf_modified = 1000 \<rparr>"

definition demo_listing_response :: browse_response where
  "demo_listing_response =
     \<lparr> current = ''/logs'', parent = ''/'', resp_folders = [],
       resp_files = [demo_browse_file ''app.log.owner''],
       fileGroups =
         [\<lparr> baseName = ''app.log'',
            group_files_list =
              [(demo_browse_file ''app.log.2'', Some 2), (demo_browse_file ''app.log.1'', Some 1),
               (demo_browse_file ''app.log'', None)],
            group_fileCount = 3, group_size = 43,
            group_base = Some (demo_browse_file ''app.log'', None) \<rparr>] \<rparr>"

definition demo_scan_env :: scan_env where
  "demo_scan_env =
     \<lparr> env_resolve = (\<lambda>p. p),
       env_exists = (\<lambda>p. p = ''/logs''),
       env_glob = (\<lambda>p. if p = ''/logs'' then map (\<lambda>n. ''/logs/'' @ n) demo_names else []),
       env_stat = (\<lambda>p. Some (length p, 1000)),
       env_dirname = (\<lambda>p. ''/logs''),
       env_relative = (\<lambda>d p. drop (Suc (length d)) p) \<rparr>"

definition demo_log_file :: "string \<Rightarrow> log_file" where
  "demo_log_file nm =
     \<lparr> name = nm, fpath = ''/logs/'' @ nm, dir = ''/logs'', relativePath = nm,
       sourceFolder = ''/logs'', fsize = 6 + length nm, modified = 1000 \<rparr>"


section \<open>Timestamps of lines: \<open>extractTimestamp\<close>\<close>

abbreviation digit :: rx where
  "digit \<equiv> Chr (Chars digits)"

abbreviation blank :: rx where
  "blank \<equiv> Chr (Chars spaces)"

definition dquote :: char where
  "dquote = CHR 0x22"

text \<open>
  \<open>TIMESTAMP_PATTERNS\<close>, in the order of the source:
  \<^item> \<open>/\[(\d{1,2})\/(\d{1,2})\/(\d{2,4})\s+(\d{1,2}:\d{2}:\d{2}:\d{3})\s+\w+\]/\<close>
  \<^item> \<open>/(\d{4}-\d{2}-\d{2}T\d{2}:\d{2}:\d{2})/\<close>
  \<^item> \<open>/\d{4}-\d{2}-\d{2}\s+\d{2}:\d{2}:\d{2}/\<close>
  \<^item> \<open>/\[\d{4}-\d{2}-\d{2}\s+\d{2}:\d{2}:\d{2}/\<close>
  \<^item> \<open>/\d{2}\/\d{2}\/\d{4}\s+\d{2}:\d{2}:\d{2}/\<close>
  \<^item> \<open>/[A-Z][a-z]{2}\s+\d{1,2}\s+\d{2}:\d{2}:\d{2}/\<close>
\<close>

definition hms :: rx where
  "hms = Seqs [Times 2 digit, Lit (CHR '':''), Times 2 digit, Lit (CHR '':''), Times 2 digit]"

definition ymd :: rx where
  "ymd = Seqs [Times 4 digit, Lit (CHR ''-''), Times 2 digit, Lit (CHR ''-''), Times 2 digit]"

definition TIMESTAMP_PATTERNS :: "rx list" where
  "TIMESTAMP_PATTERNS =
     [Seqs [Lit (CHR ''[''), Group 1 (Rep 1 2 digit), Lit (CHR ''/''), Group 2 (Rep 1 2 digit),
            Lit (CHR ''/''), Group 3 (Rep 2 4 digit), Plus blank,
            Group 4 (Seqs [Rep 1 2 digit, Lit (CHR '':''), Times 2 digit, Lit (CHR '':''),
                           Times 2 digit, Lit (CHR '':''), Times 3 digit]),
            Plus blank, Plus (Chr (Chars word_chars)), Lit (CHR '']'')],
      Group 1 (Seqs [ymd, Lit (CHR ''T''), hms]),
      Seqs [ymd, Plus blank, hms],
      Seqs [Lit (CHR ''[''), ymd, Plus blank, hms],
      Seqs [Times 2 digit, Lit (CHR ''/''), Times 2 digit, Lit (CHR ''/''), Times 4 digit,
            Plus blank, hms],
      Seqs [Chr (Chars upper_letters), Times 2 (Chr (Chars lower_letters)), Plus blank,
            Rep 1 2 digit, Plus blank, hms]]"

text \<open>\<open>/"Timestamp"\s*:\s*"([^"]+)"/\<close>\<close>

definition JSON_TIMESTAMP_REGEX :: rx where
  "JSON_TIMESTAMP_REGEX =
     Seqs [Str ([dquote] @ ''Timestamp'' @ [dquote]), Star blank, Lit (CHR '':''), Star blank,
           Lit dquote, Group 1 (Plus (Chr (NotChars [dquote]))), Lit dquote]"

text \<open>
  The \<open>Date\<close> constructor of the engine, on a string and on seven numbers; \<open>None\<close> is an
  invalid date (one whose \<open>getTime()\<close> is \<open>NaN\<close>).
\<close>

record 'd date_env =
  date_parse :: "string \<Rightarrow> 'd option"
  date_make :: "int \<Rightarrow> int \<Rightarrow> int \<Rightarrow> int \<Rightarrow> int \<Rightarrow> int \<Rightarrow> int \<Rightarrow> 'd option"

text \<open>\<open>s.split(":")\<close> and the element at an index (\<open>undefined\<close> reads as no digits).\<close>

fun split_on :: "char \<Rightarrow> string \<Rightarrow> string list" where
  "split_on sep [] = [[]]"
| "split_on sep (c # cs) =
     (if c = sep then [] # split_on sep cs
      else (case split_on sep cs of [] \<Rightarrow> [[c]] | p # ps \<Rightarrow> (c # p) # ps))"

definition part :: "string list \<Rightarrow> nat \<Rightarrow> string" where
  "part ps i = (if i < length ps then ps ! i else [])"

definition json_timestamp :: "'d date_env \<Rightarrow> string \<Rightarrow> 'd option" where
  "json_timestamp D line =
     (case rx_exec False JSON_TIMESTAMP_REGEX line of
        None \<Rightarrow> None
      | Some jsonTsMatch \<Rightarrow> date_parse D (group_text jsonTsMatch 1))"

definition ws_timestamp :: "'d date_env \<Rightarrow> string \<Rightarrow> 'd option" where
  "ws_timestamp D line =
     (case rx_exec False (hd TIMESTAMP_PATTERNS) line of
        None \<Rightarrow> None
      | Some wsMatch \<Rightarrow>
          let month = parse_digits (group_text wsMatch 1) - 1;
              day = parse_digits (group_text wsMatch 2);
              year0 = parse_digits (group_text wsMatch 3);
              year = (if year0 < 100 then year0 + 2000 else year0);
              timeParts = split_on (CHR '':'') (group_text wsMatch 4);
              hours = parse_digits (part timeParts 0);
              minutes = parse_digits (part timeParts 1);
              seconds = parse_digits (part timeParts 2);
              ms = parse_digits (part timeParts 3)
          in date_make D year month day hours minutes seconds ms)"

text \<open>\<open>raw = match[1] || match[0]; raw = raw.replace(/^\[/, "")\<close>\<close>

definition raw_text :: "rx_match \<Rightarrow> string" where
  "raw_text m =
     (let raw = (case group m 1 of None \<Rightarrow> m_text m | Some g \<Rightarrow> if g = [] then m_text m else g)
      in case raw of [] \<Rightarrow> [] | c # cs \<Rightarrow> if c = CHR ''['' then cs else raw)"

text \<open>
  The loop over the patterns after the first: a pattern that does not match, or whose
  text gives an invalid date, is followed by the next one.
\<close>

fun try_patterns :: "(string \<Rightarrow> 'd option) \<Rightarrow> rx list \<Rightarrow> string \<Rightarrow> 'd option" where
  "try_patterns parse [] line = None"
| "try_patterns parse (p # ps) line =
     (case rx_exec False p line of
        None \<Rightarrow> try_patterns parse ps line
      | Some m \<Rightarrow>
          (case parse (raw_text m) of
             Some date \<Rightarrow> Some date
           | None \<Rightarrow> try_patterns parse ps line))"

definition extractTimestamp :: "'d date_env \<Rightarrow> string \<Rightarrow> 'd option" where
  "extractTimestamp D line =
     (case json_timestamp D line of
        Some date \<Rightarrow> Some date
      | None \<Rightarrow>
          (case ws_timestamp D line of
             Some date \<Rightarrow> Some date
           | None \<Rightarrow> try_patterns (date_parse D) (tl TIMESTAMP_PATTERNS) line))"

text \<open>What one pattern gives for a line: the date of its match, if it matches and parses.\<close>

definition pattern_date :: "(string \<Rightarrow> 'd option) \<Rightarrow> rx \<Rightarrow> string \<Rightarrow> 'd option" where
  "pattern_date parse p line =
     (case rx_exec False p line of None \<Rightarrow> None | Some m \<Rightarrow> parse (raw_text m))"

text \<open>The first pattern of a list that matches a line at all, with its match.\<close>

fun first_structural :: "rx list \<Rightarrow> string \<Rightarrow> (nat \<times> rx_match) option" where
  "first_structural [] line = None"
| "first_structural (p # ps) line =
     (case rx_exec False p line of
        Some m \<Rightarrow> Some (0, m)
      | None \<Rightarrow> map_option (\<lambda>(i, m). (Suc i, m)) (first_structural ps line))"

text \<open>
  An example engine. Its string constructor takes the date-time form
  \<open>YYYY-MM-DDTHH:mm:ss\<close> and the same with blanks for the \<open>T\<close>, with every field in its range,
  and no other string. A date is its seven numbers (the month counted from 0).
\<close>

datatype instant = Instant int int int int int int int

definition DATE_TIME_FORM :: rx where
  "DATE_TIME_FORM =
     Seqs [Bol, Group 1 (Times 4 digit), Lit (CHR ''-''), Group 2 (Times 2 digit), Lit (CHR ''-''),
           Group 3 (Times 2 digit), Alt (Lit (CHR ''T'')) (Plus (Lit (CHR '' ''))),
           Group 4 (Times 2 digit), Lit (CHR '':''), Group 5 (Times 2 digit), Lit (CHR '':''),
           Group 6 (Times 2 digit), Eol]"

definition demo_date_parse :: "string \<Rightarrow> instant option" where
  "demo_date_parse s =
     (case rx_exec False DATE_TIME_FORM s of
        None \<Rightarrow> None
      | Some m \<Rightarrow>
          let y = parse_digits (group_text m 1); mo = parse_digits (group_text m 2);
              d = parse_digits (group_text m 3); h = parse_digits (group_text m 4);
              mi = parse_digits (group_text m 5); sec = parse_digits (group_text m 6)
          in if 1 \<le> mo \<and> mo \<le> 12 \<and> 1 \<le> d \<and> d \<le> 31 \<and> h \<le> 23 \<and> mi \<le> 59 \<and> sec \<le> 59
             then Some (Instant y (mo - 1) d h mi sec 0)
             else None)"

definition demo_date :: "instant date_env" where
  "demo_date =
     \<lparr> date_parse = demo_date_parse,
       date_make = (\<lambda>y mo d h mi s ms. Some (Instant y mo d h mi s ms)) \<rparr>"

definition two_dates_line :: string where
  "two_dates_line = ''2024-13-45T10:30:00 2024-01-15 10:30:00''"


section \<open>Search matcher: \<open>buildSearchRegex\<close>\<close>

text \<open>\<open>/^\/(.+)\/([gimsuy]*)$/\<close>\<close>

definition DELIMITED_REGEX :: rx where
  "DELIMITED_REGEX =
     Seqs [Bol, Lit (CHR ''/''), Group 1 (Plus AnyChar), Lit (CHR ''/''),
           Group 2 (Star (Chr (Chars ''gimsuy''))), Eol]"

text \<open>
  The engine's regular expressions: the constructor \<open>new RegExp(pattern, flags)\<close>, \<open>None\<close>
  when it throws, and \<open>regex.test(line)\<close> on a regular expression without the flags \<open>g\<close> and
  \<open>y\<close>.
\<close>

record 'r regexp_engine =
  RegExp_new :: "string \<Rightarrow> string \<Rightarrow> 'r option"
  RegExp_test :: "'r \<Rightarrow> string \<Rightarrow> bool"

text \<open>\<open>regexMatch[2] || "i"\<close>\<close>

definition flags_or_i :: "string \<Rightarrow> string" where
  "flags_or_i flags = (if flags = [] then ''i'' else flags)"

definition buildSearchRegex :: "'r regexp_engine \<Rightarrow> string \<Rightarrow> 'r option" where
  "buildSearchRegex E search =
     (if search = [] then None
      else case rx_exec False DELIMITED_REGEX search of
        Some regexMatch \<Rightarrow>
          RegExp_new E (group_text regexMatch 1) (flags_or_i (group_text regexMatch 2))
      | None \<Rightarrow> RegExp_new E (escapeRegex search) ''i'')"

text \<open>
  A part of the pattern language of ECMAScript, enough to say what the constructor does
  with an escaped literal and with an unterminated class. A pattern of this part is a
  sequence of pattern characters, of escaped syntax characters (or an escaped slash), of
  \<open>.\<close>, \<open>^\<close> and \<open>$\<close>. The constructor throws on a backslash at the end and on a \<open>[\<close> that no
  \<open>]\<close> closes. Everything else (quantifiers, groups, alternatives, other escapes, a closed
  class, flags other than \<open>i\<close>) is beyond this part, and nothing is said about it.

  The meaning of a pattern of this part is the one of ECMAScript on the strings that are
  represented, those of code units below 256. Without the flags \<open>s\<close> and \<open>m\<close>, the dot takes one
  code unit that is not a line terminator (below 256 these are line feed and carriage
  return), and \<open>^\<close> and \<open>$\<close> hold at the start and at the end of the string. Under the flag \<open>i\<close>
  a character of the pattern takes a character of the string when their canonical forms
  are the same, which is \<open>to_upper\<close>: so \<open>0xE9\<close> takes \<open>0xC9\<close> as \<open>e\<close> takes \<open>E\<close>.
\<close>

datatype 'a parsed = Parsed 'a | Throws | Beyond

definition syntax_characters :: string where
  "syntax_characters = ''^$.*+?()[]{}|'' @ [backslash]"

fun class_closed :: "string \<Rightarrow> bool" where
  "class_closed [] = False"
| "class_closed (c # cs) =
     (if c = CHR '']'' then True
      else if c = backslash then (case cs of [] \<Rightarrow> False | e # rest \<Rightarrow> class_closed rest)
      else class_closed cs)"

definition and_then :: "rx \<Rightarrow> rx list parsed \<Rightarrow> rx list parsed" where
  "and_then t r = (case r of Parsed ts \<Rightarrow> Parsed (t # ts) | Throws \<Rightarrow> Throws | Beyond \<Rightarrow> Beyond)"

fun pattern_terms :: "string \<Rightarrow> rx list parsed" where
  "pattern_terms [] = Parsed []"
| "pattern_terms (c # cs) =
     (if c = backslash then
        (case cs of
           [] \<Rightarrow> Throws
         | e # rest \<Rightarrow>
             if e \<in> set syntax_characters \<or> e = CHR ''/'' then and_then (Lit e) (pattern_terms rest)
             else Beyond)
      else if c = CHR ''['' then (if class_closed cs then Beyond else Throws)
      else if c = CHR ''.'' then and_then AnyChar (pattern_terms cs)
      else if c = CHR ''^'' then and_then Bol (pattern_terms cs)
      else if c = CHR ''$'' then and_then Eol (pattern_terms cs)
      else if c \<in> set ''*+?(){}|]'' then Beyond
      else and_then (Lit c) (pattern_terms cs))"

text \<open>A compiled regular expression of this part: the flag \<open>i\<close> and the expression.\<close>

definition regexp_fragment :: "string \<Rightarrow> string \<Rightarrow> (bool \<times> rx) parsed" where
  "regexp_fragment pattern flags =
     (if flags \<noteq> [] \<and> flags \<noteq> ''i'' then Beyond
      else case pattern_terms pattern of
        Parsed ts \<Rightarrow> Parsed (flags = ''i'', Seqs ts)
      | Throws \<Rightarrow> Throws
      | Beyond \<Rightarrow> Beyond)"

text \<open>
  An engine conforms when, on the strings that are represented, it does what this part
  of the language says, where it says. This is what ECMAScript asks of the constructor
  and of \<open>test\<close> for these patterns.
\<close>

definition conforms :: "'r regexp_engine \<Rightarrow> bool" where
  "conforms E \<longleftrightarrow>
     (\<forall>pattern flags.
        case regexp_fragment pattern flags of
          Beyond \<Rightarrow> True
        | Throws \<Rightarrow> RegExp_new E pattern flags = None
        | Parsed (ic, r) \<Rightarrow>
            (\<exists>x. RegExp_new E pattern flags = Some x \<and>
                 (\<forall>line. RegExp_test E x line = rx_test ic r line)))"

text \<open>
  A line contains a text, two characters taken as the same when their canonical forms
  are; \<open>ci_prefix\<close> is the same for a text at the start of the line.
\<close>

fun ci_prefix :: "string \<Rightarrow> string \<Rightarrow> bool" where
  "ci_prefix [] s = True"
| "ci_prefix (c # cs) [] = False"
| "ci_prefix (c # cs) (x # xs) = (to_upper x = to_upper c \<and> ci_prefix cs xs)"

definition contains_ci :: "string \<Rightarrow> string \<Rightarrow> bool" where
  "contains_ci q line = list_ex (\<lambda>j. ci_prefix q (drop j line)) [0..<Suc (length line)]"

text \<open>An example engine: the part above, throwing on everything beyond it.\<close>

definition fragment_engine :: "(bool \<times> rx) regexp_engine" where
  "fragment_engine =
     \<lparr> RegExp_new = (\<lambda>pattern flags.
          case regexp_fragment pattern flags of Parsed x \<Rightarrow> Some x | Throws \<Rightarrow> None | Beyond \<Rightarrow> None),
       RegExp_test = (\<lambda>x line. rx_test (fst x) (snd x) line) \<rparr>"


section \<open>Properties of the merger\<close>

lemma split_lines_nonempty: "split_lines s \<noteq> []"
  by (induction s rule: split_lines.induct) (auto split: list.splits)

lemma take_sum_mono:
  fixes cs :: "nat list"
  assumes "i \<le> j"
  shows "sum_list (take i cs) \<le> sum_list (take j cs)"
proof -
  from assms obtain d where "j = i + d" using le_Suc_ex by blast
  then show ?thesis by (simp add: take_add)
qed

lemma take_Suc_sum:
  fixes cs :: "nat list"
  assumes "i < length cs"
  shows "sum_list (take (Suc i) cs) = sum_list (take i cs) + cs ! i"
  using assms by (simp add: take_Suc_conv_app_nth)

lemma prefix_sum_cover:
  fixes cs :: "nat list"
  assumes "k < sum_list cs"
  shows "\<exists>i<length cs. sum_list (take i cs) \<le> k \<and> k < sum_list (take i cs) + cs ! i"
  using assms
proof (induction cs rule: rev_induct)
  case Nil
  then show ?case by simp
next
  case (snoc c cs)
  show ?case
  proof (cases "k < sum_list cs")
    case True
    with snoc.IH obtain i where "i < length cs" "sum_list (take i cs) \<le> k"
      "k < sum_list (take i cs) + cs ! i" by blast
    then show ?thesis by (auto simp: nth_append intro!: exI[of _ i])
  next
    case False
    with snoc.prems show ?thesis by (auto intro!: exI[of _ "length cs"])
  qed
qed

lemma prefix_sum_disjoint:
  fixes cs :: "nat list"
  assumes "i < length cs" "j < length cs"
    and "sum_list (take i cs) \<le> k" "k < sum_list (take i cs) + cs ! i"
    and "sum_list (take j cs) \<le> k" "k < sum_list (take j cs) + cs ! j"
  shows "i = j"
proof (rule ccontr)
  assume "i \<noteq> j"
  then consider "i < j" | "j < i" by linarith
  then show False
  proof cases
    case 1
    then have "sum_list (take (Suc i) cs) \<le> sum_list (take j cs)"
      by (intro take_sum_mono) simp
    with assms show False by (simp add: take_Suc_sum)
  next
    case 2
    then have "sum_list (take (Suc j) cs) \<le> sum_list (take i cs)"
      by (intro take_sum_mono) simp
    with assms show False by (simp add: take_Suc_sum)
  qed
qed



lemma prefix_starts_snoc:
  assumes "prefix_starts ms" "startLine m = sum_list (map lineCount ms)"
  shows "prefix_starts (ms @ [m])"
  unfolding prefix_starts_def
proof (intro allI impI)
  fix i assume "i < length (ms @ [m])"
  then consider "i < length ms" | "i = length ms" by fastforce
  then show "startLine ((ms @ [m]) ! i) = sum_list (map lineCount (take i (ms @ [m])))"
  proof cases
    case 1
    with assms(1) show ?thesis by (simp add: prefix_starts_def nth_append)
  next
    case 2
    with assms(2) show ?thesis by simp
  qed
qed

lemma file_lines_skipped: "\<not> merged_file fs p \<Longrightarrow> file_lines fs p = []"
  by (auto simp: merged_file_def file_lines_def split: option.splits node.splits)

lemma file_size_skipped: "\<not> merged_file fs p \<Longrightarrow> file_size fs p = 0"
  by (auto simp: merged_file_def file_size_def split: option.splits node.splits)

lemma merge_step_inv:
  assumes "merge_inv fs done acc" "merge_step fs acc fp = Inr acc'"
  shows "merge_inv fs (done @ [fp]) acc'"
proof (cases "fs fp")
  case None
  with assms show ?thesis
    by (simp add: merge_step_def existsSync_def merge_inv_def merged_file_def file_lines_def
        file_size_def)
next
  case (Some nd)
  show ?thesis
  proof (cases nd)
    case (Directory sz)
    with Some assms show ?thesis
      by (simp add: merge_step_def existsSync_def merge_inv_def merged_file_def file_lines_def
        file_size_def)
  next
    case (RegFile ok bytes)
    with Some assms(2) have ok: "ok"
      by (auto simp: merge_step_def existsSync_def split: if_splits)
    let ?ls = "pop_empty_last (split_lines (read_head bytes))"
    let ?m = "\<lparr> fileName = basename fp, path = fp,
                 startLine = length (allLines acc), lineCount = length ?ls \<rparr>"
    from Some RegFile ok assms(2)
    have acc': "acc' = \<lparr> allLines = allLines acc @ ?ls,
                          totalSize = totalSize acc + length bytes,
                          fileMarkers = fileMarkers acc @ [?m] \<rparr>"
      by (simp add: merge_step_def existsSync_def Let_def)
    have fl: "file_lines fs fp = ?ls" and mf: "merged_file fs fp"
      and fz: "file_size fs fp = length bytes"
      using Some RegFile by (simp_all add: file_lines_def merged_file_def file_size_def)
    from assms(1) have "prefix_starts (fileMarkers acc @ [?m])"
      by (intro prefix_starts_snoc) (simp_all add: merge_inv_def)
    with assms(1) fl mf fz show ?thesis
      by (simp add: merge_inv_def acc')
  qed
qed

lemma merge_loop_inv:
  assumes "merge_inv fs done acc" "merge_loop fs acc fps = Inr acc'"
  shows "merge_inv fs (done @ fps) acc'"
  using assms
proof (induction fps arbitrary: acc "done")
  case Nil
  then show ?case by simp
next
  case (Cons fp fps)
  from Cons.prems(2) obtain acc1 where s: "merge_step fs acc fp = Inr acc1"
    and l: "merge_loop fs acc1 fps = Inr acc'"
    by (auto split: sum.splits)
  from merge_step_inv[OF Cons.prems(1) s] have "merge_inv fs (done @ [fp]) acc1" .
  from Cons.IH[OF this l] show ?case by simp
qed

lemma merge_init_inv: "merge_inv fs [] merge_init"
  by (simp add: merge_inv_def merge_init_def prefix_starts_def)

lemma prefix_starts_sorted:
  assumes "prefix_starts ms"
  shows "sorted (map startLine ms)"
  unfolding sorted_iff_nth_mono
proof (intro allI impI)
  fix i j assume ij: "i \<le> j" "j < length (map startLine ms)"
  then have "sum_list (take i (map lineCount ms)) \<le> sum_list (take j (map lineCount ms))"
    by (intro take_sum_mono)
  with ij assms show "map startLine ms ! i \<le> map startLine ms ! j"
    by (simp add: prefix_starts_def take_map)
qed

lemma prefix_starts_partition:
  assumes "prefix_starts ms" "k < sum_list (map lineCount ms)"
  shows "\<exists>!i. i < length ms \<and> startLine (ms ! i) \<le> k \<and> k < startLine (ms ! i) + lineCount (ms ! i)"
proof -
  let ?cs = "map lineCount ms"
  have st: "\<And>i. i < length ms \<Longrightarrow> startLine (ms ! i) = sum_list (take i ?cs)"
    using assms(1) by (simp add: prefix_starts_def take_map)
  from prefix_sum_cover[OF assms(2)] obtain i where
    i: "i < length ms" "sum_list (take i ?cs) \<le> k" "k < sum_list (take i ?cs) + ?cs ! i"
    by auto
  show ?thesis
  proof (rule ex1I[of _ i])
    from i show "i < length ms \<and> startLine (ms ! i) \<le> k \<and> k < startLine (ms ! i) + lineCount (ms ! i)"
      by (simp add: st)
  next
    fix j assume j: "j < length ms \<and> startLine (ms ! j) \<le> k \<and> k < startLine (ms ! j) + lineCount (ms ! j)"
    then have "sum_list (take j ?cs) \<le> k" "k < sum_list (take j ?cs) + ?cs ! j" "j < length ?cs"
      using st[of j] by simp_all
    from prefix_sum_disjoint[OF this(3) _ this(1,2) i(2,3)] i(1) show "j = i" by simp
  qed
qed

text \<open>
  Claim C2. Whenever the merge returns, its markers are those of the paths that name files,
  in the order given, each with the number of lines taken from its file; the markers are
  sorted by \<open>startLine\<close>; the \<open>startLine\<close> of marker \<open>i\<close> is the sum of the line counts of the
  markers before it; the line counts add up to the number of returned lines; and every line
  index below that number lies in the range of exactly one marker.
\<close>

theorem C2_marker_partition:
  assumes "read_multi fs paths = Inr r"
  shows "(let ms = resp_fileMarkers r; n = length (resp_lines r) in
          map (\<lambda>m. (path m, lineCount m)) ms =
            map (\<lambda>p. (p, length (file_lines fs p))) (filter (merged_file fs) paths) \<and>
          sorted (map startLine ms) \<and>
          (\<forall>i<length ms. startLine (ms ! i) = sum_list (map lineCount (take i ms))) \<and>
          sum_list (map lineCount ms) = n \<and>
          (\<forall>k<n. \<exists>!i. i < length ms \<and> startLine (ms ! i) \<le> k \<and>
                       k < startLine (ms ! i) + lineCount (ms ! i)))"
proof -
  from assms obtain acc where l: "merge_loop fs merge_init paths = Inr acc"
    and r: "resp_fileMarkers r = fileMarkers acc" "resp_lines r = allLines acc"
    by (auto simp: read_multi_def split: if_splits sum.splits)
  from merge_loop_inv[OF merge_init_inv l] have inv: "merge_inv fs paths acc" by simp
  then have ps: "prefix_starts (fileMarkers acc)"
    and len: "sum_list (map lineCount (fileMarkers acc)) = length (allLines acc)"
    and files: "map (\<lambda>m. (path m, lineCount m)) (fileMarkers acc) =
       map (\<lambda>p. (p, length (file_lines fs p))) (filter (merged_file fs) paths)"
    by (simp_all add: merge_inv_def)
  have part: "\<forall>k<length (allLines acc). \<exists>!i. i < length (fileMarkers acc) \<and>
      startLine (fileMarkers acc ! i) \<le> k \<and>
      k < startLine (fileMarkers acc ! i) + lineCount (fileMarkers acc ! i)"
    using prefix_starts_partition[OF ps] len by simp
  from ps have ps': "\<forall>i<length (fileMarkers acc).
      startLine (fileMarkers acc ! i) = sum_list (map lineCount (take i (fileMarkers acc)))"
    by (simp add: prefix_starts_def)
  show ?thesis
    unfolding Let_def r
    using files prefix_starts_sorted[OF ps] ps' len part by blast
qed


lemma merge_step_directory:
  assumes "fs p = Some (Directory sz)"
  shows "merge_step fs acc p = Inr acc"
  using assms by (simp add: merge_step_def existsSync_def)

lemma merge_step_missing:
  assumes "fs p = None"
  shows "merge_step fs acc p = Inr acc"
  using assms by (simp add: merge_step_def existsSync_def)

lemma merge_step_forget:
  assumes "fs p = Some (Directory sz)"
  shows "merge_step (fs(p := None)) acc q = merge_step fs acc q"
proof (cases "q = p")
  case True
  with assms show ?thesis by (simp add: merge_step_def existsSync_def)
next
  case False
  then show ?thesis by (simp add: merge_step_def existsSync_def)
qed

lemma merge_loop_cong_step:
  assumes "\<And>acc q. merge_step fs' acc q = merge_step fs acc q"
  shows "merge_loop fs' acc qs = merge_loop fs acc qs"
  by (induction qs arbitrary: acc) (simp_all add: assms split: sum.splits)

lemma merge_loop_remove:
  assumes "merge_step fs acc p = Inr acc" "\<And>a. merge_step fs a p = Inr a"
  shows "merge_loop fs acc (removeAll p qs) = merge_loop fs acc qs"
proof (induction qs arbitrary: acc)
  case Nil
  show ?case by simp
next
  case (Cons q qs)
  show ?case
  proof (cases "q = p")
    case True
    with Cons.IH[of acc] assms(2)[of acc] show ?thesis by simp
  next
    case False
    with Cons.IH show ?thesis by (simp split: sum.splits)
  qed
qed

lemma read_multi_inv:
  assumes "read_multi fs paths = Inr r"
  obtains acc where "merge_inv fs paths acc" "resp_fileMarkers r = fileMarkers acc"
    "resp_lines r = allLines acc" "resp_totalSize r = totalSize acc"
    "resp_fileCount r = length (fileMarkers acc)"
proof -
  from assms obtain acc where l: "merge_loop fs merge_init paths = Inr acc"
    and r: "resp_fileMarkers r = fileMarkers acc" "resp_lines r = allLines acc"
      "resp_totalSize r = totalSize acc" "resp_fileCount r = length (fileMarkers acc)"
    by (auto simp: read_multi_def split: if_splits sum.splits)
  from merge_loop_inv[OF merge_init_inv l] have "merge_inv fs paths acc" by simp
  with r that show ?thesis by blast
qed

lemma sum_file_size_remove:
  assumes "\<not> merged_file fs p"
  shows "sum_list (map (file_size fs) (removeAll p qs)) = sum_list (map (file_size fs) qs)"
  using assms by (induction qs) (auto simp: file_size_skipped)

text \<open>
  Claim C10. A path that names a directory leaves the accumulator of the merge as it is, as
  a missing path does: the merge is the same as on the file system without that path and
  the same as on the path list without it, so the directory gives no marker, is not counted
  in \<open>fileCount\<close>, adds nothing to \<open>totalSize\<close> and no line, and the step does not fail.
\<close>

theorem C10_directory_skipped:
  assumes "fs p = Some (Directory sz)"
  shows "merge_step fs acc p = Inr acc \<and>
         merge_step fs acc p = merge_step (fs(p := None)) acc p \<and>
         merge_loop fs acc paths = merge_loop fs acc (removeAll p paths) \<and>
         read_multi fs paths = read_multi (fs(p := None)) paths \<and>
         (\<forall>r. read_multi fs paths = Inr r \<longrightarrow>
            p \<notin> path ` set (resp_fileMarkers r) \<and>
            resp_fileCount r = length (filter (merged_file fs) paths) \<and>
            resp_totalSize r = sum_list (map (file_size fs) (removeAll p paths)) \<and>
            resp_lines r = concat (map (file_lines fs) (removeAll p paths)))"
proof -
  have nm: "\<not> merged_file fs p" using assms by (simp add: merged_file_def)
  have a: "merge_step fs a p = Inr a" for a using assms by (rule merge_step_directory)
  have f: "merge_step (fs(p := None)) a q = merge_step fs a q" for a q
    using assms by (rule merge_step_forget)
  have b: "merge_step fs acc p = merge_step (fs(p := None)) acc p"
    by (simp only: f)
  have c: "merge_loop fs acc paths = merge_loop fs acc (removeAll p paths)"
    using merge_loop_remove[of fs acc p paths] a by simp
  have "merge_loop (fs(p := None)) merge_init paths = merge_loop fs merge_init paths"
    by (rule merge_loop_cong_step) (rule f)
  then have d: "read_multi fs paths = read_multi (fs(p := None)) paths"
    by (simp only: read_multi_def)
  have e: "p \<notin> path ` set (resp_fileMarkers r) \<and>
           resp_fileCount r = length (filter (merged_file fs) paths) \<and>
           resp_totalSize r = sum_list (map (file_size fs) (removeAll p paths)) \<and>
           resp_lines r = concat (map (file_lines fs) (removeAll p paths))"
    if r: "read_multi fs paths = Inr r" for r
  proof -
    from r obtain acc where inv: "merge_inv fs paths acc"
      and eq: "resp_fileMarkers r = fileMarkers acc" "resp_lines r = allLines acc"
        "resp_totalSize r = totalSize acc" "resp_fileCount r = length (fileMarkers acc)"
      by (rule read_multi_inv)
    from inv have m: "map (\<lambda>m. (path m, lineCount m)) (fileMarkers acc) =
        map (\<lambda>p. (p, length (file_lines fs p))) (filter (merged_file fs) paths)"
      and t: "totalSize acc = sum_list (map (file_size fs) paths)"
      and ls: "allLines acc = concat (map (file_lines fs) paths)"
      by (simp_all add: merge_inv_def)
    from m have "map fst (map (\<lambda>m. (path m, lineCount m)) (fileMarkers acc)) =
        map fst (map (\<lambda>p. (p, length (file_lines fs p))) (filter (merged_file fs) paths))"
      by simp
    then have paths: "map path (fileMarkers acc) = filter (merged_file fs) paths"
      by (simp add: comp_def)
    then have "set (map path (fileMarkers acc)) = set (filter (merged_file fs) paths)" by simp
    with nm have 1: "p \<notin> path ` set (fileMarkers acc)" by auto
    from paths have 2: "length (fileMarkers acc) = length (filter (merged_file fs) paths)"
      by (metis length_map)
    have 3: "concat (map (file_lines fs) (removeAll p paths)) = concat (map (file_lines fs) paths)"
      using nm by (induction paths) (auto simp: file_lines_skipped)
    from 1 2 3 t ls sum_file_size_remove[OF nm, of paths] show ?thesis by (simp add: eq)
  qed
  from a[of acc] b c d e show ?thesis by blast
qed

lemma read_head_short:
  assumes "length bytes \<le> 10485760"
  shows "read_head bytes = bytes"
  using assms by (simp add: read_head_def read_cap_def)

lemma decimal_small: "decimal (Suc 0) = ''1''" "decimal (Suc (Suc 0)) = ''2''"
  by code_simp+

lemma demo_step_1:
  "merge_step demo_fs merge_init ''/logs/app.log.1'' =
     Inr \<lparr> allLines = [''a'', ''b''], totalSize = 5,
           fileMarkers = [\<lparr> fileName = ''app.log.1'', path = ''/logs/app.log.1'',
                            startLine = 0, lineCount = 2 \<rparr>] \<rparr>"
  by (simp add: merge_step_def existsSync_def demo_fs_def merge_init_def read_head_short
      pop_empty_last_def basename_def strip_trailing_slashes_def)

lemma demo_step_2:
  "merge_step demo_fs acc ''/logs'' = Inr acc"
  "merge_step demo_fs acc ''/logs/gone.log'' = Inr acc"
  by (simp_all add: merge_step_def existsSync_def demo_fs_def)

lemma demo_step_3:
  "merge_step demo_fs
     \<lparr> allLines = [''a'', ''b''], totalSize = 5,
       fileMarkers = [\<lparr> fileName = ''app.log.1'', path = ''/logs/app.log.1'',
                        startLine = 0, lineCount = 2 \<rparr>] \<rparr> ''/logs/app.log'' =
     Inr \<lparr> allLines = [''a'', ''b'', ''c'', ''d''], totalSize = 8,
           fileMarkers = [\<lparr> fileName = ''app.log.1'', path = ''/logs/app.log.1'',
                            startLine = 0, lineCount = 2 \<rparr>,
                          \<lparr> fileName = ''app.log'', path = ''/logs/app.log'',
                            startLine = 2, lineCount = 2 \<rparr>] \<rparr>"
  by (simp add: merge_step_def existsSync_def demo_fs_def read_head_short
      pop_empty_last_def basename_def strip_trailing_slashes_def)

lemma demo_merge_eval: "read_multi demo_fs demo_paths = Inr demo_merge"
  by (simp add: read_multi_def demo_paths_def demo_step_1 demo_step_2 demo_step_3
      demo_merge_def decimal_small)

text \<open>
  The directory \<open>/logs\<close> among the example paths.
\<close>

theorem C10_witness:
  "demo_fs ''/logs'' = Some (Directory 4096) \<and>
   read_multi demo_fs demo_paths = Inr demo_merge \<and>
   read_multi (demo_fs(''/logs'' := None)) demo_paths = Inr demo_merge \<and>
   ''/logs'' \<notin> path ` set (resp_fileMarkers demo_merge)"
proof -
  have h: "demo_fs ''/logs'' = Some (Directory 4096)" by (simp add: demo_fs_def)
  note c = C10_directory_skipped[of demo_fs "''/logs''" 4096 merge_init demo_paths, OF h]
  from c have e: "read_multi demo_fs demo_paths = read_multi (demo_fs(''/logs'' := None)) demo_paths"
    by (elim conjE)
  from c demo_merge_eval have n: "''/logs'' \<notin> path ` set (resp_fileMarkers demo_merge)"
    by (elim conjE) blast
  from h e n demo_merge_eval show ?thesis by simp
qed

text \<open>
  The merge of the example file system: two files of two lines each, a directory and a
  missing path.
\<close>

theorem C2_witness:
  "read_multi demo_fs demo_paths = Inr demo_merge \<and>
   map startLine (resp_fileMarkers demo_merge) = [0, 2] \<and>
   sorted (map startLine (resp_fileMarkers demo_merge)) \<and>
   sum_list (map lineCount (resp_fileMarkers demo_merge)) = length (resp_lines demo_merge)"
proof -
  from C2_marker_partition[OF demo_merge_eval] demo_merge_eval show ?thesis
    by (simp add: Let_def demo_merge_def)
qed

lemma read_head_take: "read_head bytes = take read_cap bytes"
  by (simp add: read_head_def min_def)

lemma split_lines_no_LF:
  assumes "LF \<notin> set s"
  shows "split_lines s = [s]"
  using assms by (induction s) (auto simp: neq_Nil_conv)

lemma read_cap_pos: "0 < read_cap"
  by (simp add: read_cap_def)

lemma big_length: "length big_bytes = read_cap + 1"
  by (simp add: big_bytes_def)

lemma big_head: "read_head big_bytes = replicate read_cap (CHR ''a'')"
  by (simp add: read_head_take big_bytes_def)

lemma big_tail: "read_tail big_bytes = replicate (read_cap - 1) (CHR ''a'') @ ''b''"
proof -
  from read_cap_pos obtain n where n: "read_cap = Suc n" by (cases read_cap) simp_all
  have "drop 1 (replicate (Suc n) (CHR ''a'') @ ''b'') = replicate n (CHR ''a'') @ ''b''"
    by simp
  then show ?thesis by (simp add: read_tail_def big_bytes_def n)
qed

lemma big_head_lines:
  "pop_empty_last (split_lines (read_head big_bytes)) = [replicate read_cap (CHR ''a'')]"
proof -
  have "split_lines (replicate read_cap (CHR ''a'')) = [replicate read_cap (CHR ''a'')]"
    by (rule split_lines_no_LF) simp
  with read_cap_pos show ?thesis by (simp add: big_head pop_empty_last_def)
qed

lemma big_tail_lines:
  "pop_empty_last (split_lines (read_tail big_bytes)) = [replicate (read_cap - 1) (CHR ''a'') @ ''b'']"
proof -
  have "split_lines (read_tail big_bytes) = [read_tail big_bytes]"
    by (rule split_lines_no_LF) (simp add: big_tail)
  then show ?thesis by (simp add: pop_empty_last_def big_tail)
qed

lemma big_merge:
  "read_multi big_fs [''/big.log''] =
     Inr \<lparr> resp_lines = [replicate read_cap (CHR ''a'')],
           resp_totalSize = read_cap + 1,
           resp_fileCount = 1,
           resp_fileMarkers =
             [\<lparr> fileName = ''big.log'', path = ''/big.log'', startLine = 0, lineCount = 1 \<rparr>],
           resp_fileName = ''1 files merged'' \<rparr>"
proof -
  have s: "merge_step big_fs merge_init ''/big.log'' =
      Inr \<lparr> allLines = [replicate read_cap (CHR ''a'')], totalSize = read_cap + 1,
            fileMarkers = [\<lparr> fileName = ''big.log'', path = ''/big.log'', startLine = 0,
                             lineCount = 1 \<rparr>] \<rparr>"
    by (simp add: merge_step_def existsSync_def big_fs_def merge_init_def big_head_lines
        big_length basename_def strip_trailing_slashes_def)
  show ?thesis
    by (simp add: read_multi_def s decimal_small)
qed


text \<open>
  Claim C6 as stated fails: of a file of one byte more than the cap, \<open>a\<dots>ab\<close>, the merge
  returns the first \<open>read_cap\<close> bytes as its only line, not the last \<open>read_cap\<close> bytes.
\<close>

theorem C6_counterexample:
  "big_fs ''/big.log'' = Some (RegFile True big_bytes) \<and> read_cap < length big_bytes \<and>
   merged_lines big_fs [''/big.log''] = Some [replicate read_cap (CHR ''a'')] \<and>
   merged_lines big_fs [''/big.log''] \<noteq> Some (pop_empty_last (split_lines (read_tail big_bytes)))"
proof -
  have "CHR ''b'' \<notin> set (replicate read_cap (CHR ''a''))" by simp
  moreover have "CHR ''b'' \<in> set (replicate (read_cap - 1) (CHR ''a'') @ ''b'')" by simp
  ultimately have neq: "replicate read_cap (CHR ''a'') \<noteq> replicate (read_cap - 1) (CHR ''a'') @ ''b''"
    by metis
  have m: "merged_lines big_fs [''/big.log''] = Some [replicate read_cap (CHR ''a'')]"
    by (simp add: merged_lines_def big_merge)
  have f: "big_fs ''/big.log'' = Some (RegFile True big_bytes)" by (simp add: big_fs_def)
  from neq m f show ?thesis by (simp add: big_tail_lines big_length)
qed

text \<open>
  Claim C6, amended. Of a file larger than the cap the merge reads the first \<open>read_cap\<close>
  bytes (the later content is dropped); the returned lines are the lines of what was read
  of each path, and \<open>totalSize\<close> is the sum of the full sizes of the merged files.
\<close>

theorem C6_head_read_full_size:
  assumes "read_multi fs paths = Inr r"
  shows "(\<forall>p\<in>set paths. \<forall>ok bytes. fs p = Some (RegFile ok bytes) \<longrightarrow> read_cap < length bytes \<longrightarrow>
            read_head bytes = take read_cap bytes \<and>
            length (read_head bytes) = read_cap \<and>
            file_lines fs p = pop_empty_last (split_lines (take read_cap bytes)) \<and>
            file_size fs p = length bytes) \<and>
         resp_lines r = concat (map (file_lines fs) paths) \<and>
         resp_totalSize r = sum_list (map (file_size fs) (filter (merged_file fs) paths))"
proof -
  from assms obtain acc where inv: "merge_inv fs paths acc"
    and eq: "resp_lines r = allLines acc" "resp_totalSize r = totalSize acc"
    by (rule read_multi_inv)
  have "sum_list (map (file_size fs) (filter (merged_file fs) qs)) = sum_list (map (file_size fs) qs)"
    for qs by (induction qs) (auto simp: file_size_skipped)
  with inv eq have "resp_lines r = concat (map (file_lines fs) paths)"
    "resp_totalSize r = sum_list (map (file_size fs) (filter (merged_file fs) paths))"
    by (simp_all add: merge_inv_def)
  then show ?thesis
    by (auto simp: read_head_take file_lines_def file_size_def)
qed

text \<open>
  The file of \<open>read_cap + 1\<close> bytes.
\<close>

theorem C6_witness:
  "read_multi big_fs [''/big.log''] =
     Inr \<lparr> resp_lines = [replicate read_cap (CHR ''a'')],
           resp_totalSize = read_cap + 1,
           resp_fileCount = 1,
           resp_fileMarkers =
             [\<lparr> fileName = ''big.log'', path = ''/big.log'', startLine = 0, lineCount = 1 \<rparr>],
           resp_fileName = ''1 files merged'' \<rparr> \<and>
   big_fs ''/big.log'' = Some (RegFile True big_bytes) \<and> read_cap < length big_bytes \<and>
   read_head big_bytes = take read_cap big_bytes \<and>
   length (read_head big_bytes) = read_cap \<and>
   file_size big_fs ''/big.log'' = read_cap + 1"
proof -
  have f: "big_fs ''/big.log'' = Some (RegFile True big_bytes)" by (simp add: big_fs_def)
  have l: "read_cap < length big_bytes" by (simp add: big_length)
  from C6_head_read_full_size[OF big_merge] f l
  have "read_head big_bytes = take read_cap big_bytes \<and> length (read_head big_bytes) = read_cap \<and>
        file_size big_fs ''/big.log'' = length big_bytes"
    by auto
  with big_merge f l show ?thesis by (simp add: big_length)
qed


section \<open>Properties of the tail engine and the session coordinator\<close>


lemma on_change_grow:
  assumes "currentFile st = Some f" "fs f = Some (RegFile True bytes)"
    "lastSize st < length bytes"
  shows "on_change fs st =
           (st\<lparr>lastSize := length bytes\<rparr>,
            (let batch = filter (\<lambda>l. l \<noteq> []) (split_lines (drop (lastSize st) bytes))
             in if batch = [] then [] else [Send (NewLines batch)]))"
  using assms by (simp add: on_change_def node_size_def Let_def)

lemma hello_lines:
  "filter (\<lambda>l. l \<noteq> []) (split_lines (''hello'' @ [LF])) = [''hello'']"
  by code_simp




declare split_lines.simps [simp del]





text \<open>
  Claim C4. When the size of the watched path is below \<open>lastSize\<close>, the handler sends exactly
  one \<open>truncated\<close> message and nothing else, and sets \<open>lastSize\<close> to the new size; a later
  growth of the file is read from that new size on.
\<close>

theorem C4_truncation:
  assumes "currentFile st = Some f" "fs f = Some nd" "node_size nd < lastSize st"
  shows "on_change fs st = (st\<lparr>lastSize := node_size nd\<rparr>, [Send Truncated]) \<and>
         (\<forall>fs' bytes. fs' f = Some (RegFile True bytes) \<longrightarrow> node_size nd < length bytes \<longrightarrow>
            on_change fs' (fst (on_change fs st)) =
              (st\<lparr>lastSize := length bytes\<rparr>,
               (let batch = filter (\<lambda>l. l \<noteq> []) (split_lines (drop (node_size nd) bytes))
                in if batch = [] then [] else [Send (NewLines batch)])))"
proof -
  have 1: "on_change fs st = (st\<lparr>lastSize := node_size nd\<rparr>, [Send Truncated])"
    using assms by (simp add: on_change_def Let_def)
  have 2: "on_change fs' (fst (on_change fs st)) =
              (st\<lparr>lastSize := length bytes\<rparr>,
               (let batch = filter (\<lambda>l. l \<noteq> []) (split_lines (drop (node_size nd) bytes))
                in if batch = [] then [] else [Send (NewLines batch)]))"
    if "fs' f = Some (RegFile True bytes)" "node_size nd < length bytes" for fs' bytes
  proof -
    have "on_change fs' (st\<lparr>lastSize := node_size nd\<rparr>) =
        (st\<lparr>lastSize := node_size nd\<rparr>\<lparr>lastSize := length bytes\<rparr>,
         (let batch = filter (\<lambda>l. l \<noteq> [])
                        (split_lines (drop (lastSize (st\<lparr>lastSize := node_size nd\<rparr>)) bytes))
          in if batch = [] then [] else [Send (NewLines batch)]))"
      using that assms(1)
      by (intro on_change_grow[where fs = fs' and bytes = bytes]) simp_all
    then show ?thesis by (simp add: 1)
  qed
  from 1 2 show ?thesis by blast
qed

text \<open>
  A file watched at size 500 that has 10 bytes at the event, and then 16.
\<close>

theorem C4_witness:
  "currentFile (watching 500) = Some ''/logs/app.log'' \<and>
   shrunk_fs ''/logs/app.log'' = Some (RegFile True (replicate 10 (CHR ''x''))) \<and>
   node_size (RegFile True (replicate 10 (CHR ''x''))) < lastSize (watching 500) \<and>
   on_change shrunk_fs (watching 500) = (watching 10, [Send Truncated]) \<and>
   on_change regrown_fs (fst (on_change shrunk_fs (watching 500))) =
     (watching 16, [Send (NewLines [''hello''])])"
proof -
  have c: "currentFile (watching 500) = Some ''/logs/app.log''" by (simp add: watching_def)
  have f: "shrunk_fs ''/logs/app.log'' = Some (RegFile True (replicate 10 (CHR ''x'')))"
    by (simp add: shrunk_fs_def)
  have l: "node_size (RegFile True (replicate 10 (CHR ''x''))) < lastSize (watching 500)"
    by (simp add: node_size_def watching_def)
  have g: "regrown_fs ''/logs/app.log'' =
     Some (RegFile True (replicate 10 (CHR ''x'') @ ''hello'' @ [LF]))"
    by (simp add: regrown_fs_def)
  note t = C4_truncation[where st = "watching 500" and fs = shrunk_fs, OF c f l]
  from t have 1: "on_change shrunk_fs (watching 500) = (watching 10, [Send Truncated])"
    by (simp add: node_size_def watching_def)
  from t g have "on_change regrown_fs (fst (on_change shrunk_fs (watching 500))) =
     (watching 16, [Send (NewLines [''hello''])])"
    by (elim conjE allE[of _ regrown_fs] allE[of _ "replicate 10 (CHR ''x'') @ ''hello'' @ [LF]"])
       (simp add: node_size_def watching_def hello_lines[simplified] Let_def)
  with c f l 1 show ?thesis by simp
qed

text \<open>
  Claim C9 as stated fails: on a connection with no watcher, \<open>stop-tail\<close> sends nothing.
\<close>

theorem C9_counterexample:
  "on_message demo_fs session_init (Message ''stop-tail'' []) = (session_init, []) \<and>
   Send TailStopped \<notin> set (snd (on_message demo_fs session_init (Message ''stop-tail'' [])))"
  by (simp add: on_message_def stop_tail_command_def session_init_def)

text \<open>
  Claim C9, amended. A \<open>stop-tail\<close> command received while a watcher is set closes it, clears
  it and sends one \<open>tail-stopped\<close> message; received while no watcher is set, it sends
  nothing and leaves the session as it is.
\<close>

theorem C9_stop_tail:
  "(\<forall>w. currentWatcher st = Some w \<longrightarrow>
      on_message fs st (Message ''stop-tail'' p) =
        (st\<lparr>currentWatcher := None\<rparr>, [Close w, Send TailStopped])) \<and>
   (currentWatcher st = None \<longrightarrow> on_message fs st (Message ''stop-tail'' p) = (st, []))"
  by (simp add: on_message_def stop_tail_command_def)

text \<open>
  A watching session and a fresh one.
\<close>

theorem C9_witness:
  "currentWatcher (watching 100) = Some ''/logs/app.log'' \<and>
   on_message demo_fs (watching 100) (Message ''stop-tail'' []) =
     ((watching 100)\<lparr>currentWatcher := None\<rparr>, [Close ''/logs/app.log'', Send TailStopped]) \<and>
   currentWatcher session_init = None \<and>
   on_message demo_fs session_init (Message ''stop-tail'' []) = (session_init, [])"
proof -
  have a: "currentWatcher (watching 100) = Some ''/logs/app.log''" by (simp add: watching_def)
  have b: "currentWatcher session_init = None" by (simp add: session_init_def)
  from C9_stop_tail[of "watching 100" demo_fs "[]"] C9_stop_tail[of session_init demo_fs "[]"] a b
  show ?thesis by simp
qed


section \<open>Properties of the file grouper\<close>

lemma app_keys:
  "group_key ''app.log'' = ''app''" "group_key ''app.log.1'' = ''app''"
  "group_key ''app.log.2'' = ''app''"
  by code_simp+

lemma app_rolls:
  "roll_number ''app.log'' = 0" "roll_number ''app.log.1'' = 1" "roll_number ''app.log.2'' = 2"
  by code_simp+

lemma app_not_inherited: "''app'' \<notin> set object_prototype_keys"
  by code_simp

lemma app_not_index: "\<not> is_array_index ''app''"
  by code_simp

lemma three_names:
  assumes "{x, y, z} = {a, b, c}" "a \<noteq> b" "a \<noteq> c" "b \<noteq> c"
  shows "(x = a \<and> y = b \<and> z = c) \<or> (x = a \<and> y = c \<and> z = b) \<or>
         (x = b \<and> y = a \<and> z = c) \<or> (x = b \<and> y = c \<and> z = a) \<or>
         (x = c \<and> y = a \<and> z = b) \<or> (x = c \<and> y = b \<and> z = a)"
proof -
  from assms(1) have "x \<in> {a, b, c}" "y \<in> {a, b, c}" "z \<in> {a, b, c}"
    "a \<in> {x, y, z}" "b \<in> {x, y, z}" "c \<in> {x, y, z}"
    by blast+
  with assms(2-4) show ?thesis by auto
qed

lemma app_group_files:
  assumes "group_key (name x) = ''app''" "group_key (name y) = ''app''"
    "group_key (name z) = ''app''"
  shows "group_files [] [x, y, z] = Inr [(''app'', [x, y, z])]"
  using assms app_not_inherited by (simp add: add_to_group_def)

lemma app_scan_groups:
  assumes "group_key (name x) = ''app''" "group_key (name y) = ''app''"
    "group_key (name z) = ''app''"
  shows "scan_groups collate [x, y, z] = Inr [make_group (''app'', [x, y, z])]"
proof -
  have "object_entries [(''app'', [x, y, z])] = [(''app'', [x, y, z])]"
    using app_not_index by (simp add: object_entries_def)
  then show ?thesis
    unfolding scan_groups_def app_group_files[OF assms] by (simp add: array_sort_def)
qed

lemma app_sorted:
  assumes "name f0 = ''app.log''" "name f1 = ''app.log.1''" "name f2 = ''app.log.2''"
  shows "array_sort by_roll_desc [f0, f1, f2] = [f2, f1, f0]"
    "array_sort by_roll_desc [f0, f2, f1] = [f2, f1, f0]"
    "array_sort by_roll_desc [f1, f0, f2] = [f2, f1, f0]"
    "array_sort by_roll_desc [f1, f2, f0] = [f2, f1, f0]"
    "array_sort by_roll_desc [f2, f0, f1] = [f2, f1, f0]"
    "array_sort by_roll_desc [f2, f1, f0] = [f2, f1, f0]"
  by (simp_all add: array_sort_def by_roll_desc_def assms app_rolls)


lemma app_three:
  assumes "length allFiles = 3"
    and "set (map name allFiles) = {''app.log'', ''app.log.1'', ''app.log.2''}"
  shows "\<exists>g. scan_groups collate allFiles = Inr [g] \<and> groupName g = ''app'' \<and>
             map name (files g) = [''app.log.2'', ''app.log.1'', ''app.log''] \<and>
             set (files g) = set allFiles \<and> fileCount g = 3"
proof -
  from assms(1) obtain x y z where xs: "allFiles = [x, y, z]"
    by (auto simp: length_Suc_conv numeral_3_eq_3)
  with assms(2) have "{name x, name y, name z} = {''app.log'', ''app.log.1'', ''app.log.2''}"
    by simp
  then have names: "(name x = ''app.log'' \<and> name y = ''app.log.1'' \<and> name z = ''app.log.2'') \<or>
      (name x = ''app.log'' \<and> name y = ''app.log.2'' \<and> name z = ''app.log.1'') \<or>
      (name x = ''app.log.1'' \<and> name y = ''app.log'' \<and> name z = ''app.log.2'') \<or>
      (name x = ''app.log.1'' \<and> name y = ''app.log.2'' \<and> name z = ''app.log'') \<or>
      (name x = ''app.log.2'' \<and> name y = ''app.log'' \<and> name z = ''app.log.1'') \<or>
      (name x = ''app.log.2'' \<and> name y = ''app.log.1'' \<and> name z = ''app.log'')"
    by (rule three_names) simp_all
  then have keys: "group_key (name x) = ''app''" "group_key (name y) = ''app''"
      "group_key (name z) = ''app''"
    by (auto simp: app_keys)
  have g: "scan_groups collate [x, y, z] = Inr [make_group (''app'', [x, y, z])]"
    using keys by (rule app_scan_groups)
  from names have "map name (array_sort by_roll_desc [x, y, z]) =
        [''app.log.2'', ''app.log.1'', ''app.log''] \<and>
      set (array_sort by_roll_desc [x, y, z]) = {x, y, z} \<and>
      length (array_sort by_roll_desc [x, y, z]) = 3"
    by (elim disjE conjE) (simp_all add: app_sorted, auto)
  then show ?thesis
    by (intro exI[of _ "make_group (''app'', [x, y, z])"]) (simp add: g make_group_def Let_def xs)
qed

lemma scan_of_groups:
  assumes "scan_groups collate allFiles = Inr [g]" "length allFiles = 3"
    "folders \<noteq> []" "scan_collect env folders = allFiles"
  shows "scan collate env folders = Inr \<lparr> resp_groups = [g], totalFiles = 3, totalGroups = 1 \<rparr>"
  unfolding scan_def Let_def assms(4) assms(1) using assms(2,3) by simp

text \<open>
  Claim C1. When the scanned files are three files named \<open>app.log\<close>, \<open>app.log.1\<close> and
  \<open>app.log.2\<close>, in any order, the scan makes exactly one group; its name is \<open>app\<close> and its
  files are, by name, \<open>app.log.2\<close>, \<open>app.log.1\<close>, \<open>app.log\<close>: rotation number descending,
  the file without a number last.
\<close>

theorem C1_grouping:
  assumes "length allFiles = 3"
    and "set (map name allFiles) = {''app.log'', ''app.log.1'', ''app.log.2''}"
  shows "(\<exists>g. scan_groups collate allFiles = Inr [g] \<and> groupName g = ''app'' \<and>
              map name (files g) = [''app.log.2'', ''app.log.1'', ''app.log''] \<and>
              set (files g) = set allFiles \<and> fileCount g = 3) \<and>
         (\<forall>env folders. folders \<noteq> [] \<longrightarrow> scan_collect env folders = allFiles \<longrightarrow>
            (\<exists>g. scan collate env folders =
                    Inr \<lparr> resp_groups = [g], totalFiles = 3, totalGroups = 1 \<rparr> \<and>
                  groupName g = ''app'' \<and>
                  map name (files g) = [''app.log.2'', ''app.log.1'', ''app.log'']))"
proof -
  from app_three[OF assms, of collate]
  obtain g where g0: "scan_groups collate allFiles = Inr [g] \<and> groupName g = ''app'' \<and>
      map name (files g) = [''app.log.2'', ''app.log.1'', ''app.log''] \<and>
      set (files g) = set allFiles \<and> fileCount g = 3" ..
  note g1 = g0[THEN conjunct1]
  note g2 = g0[THEN conjunct2, THEN conjunct1]
  note g3 = g0[THEN conjunct2, THEN conjunct2, THEN conjunct1]
  show ?thesis
  proof (intro conjI allI impI)
    show "\<exists>g. scan_groups collate allFiles = Inr [g] \<and> groupName g = ''app'' \<and>
              map name (files g) = [''app.log.2'', ''app.log.1'', ''app.log''] \<and>
              set (files g) = set allFiles \<and> fileCount g = 3"
      by (rule exI[of _ g]) (rule g0)
  next
    fix env :: scan_env and folders :: "string list"
    assume a: "folders \<noteq> []" "scan_collect env folders = allFiles"
    have "scan collate env folders =
        Inr \<lparr> resp_groups = [g], totalFiles = 3, totalGroups = 1 \<rparr>"
      using g1 assms(1) a by (rule scan_of_groups)
    then have *: "scan collate env folders =
          Inr \<lparr> resp_groups = [g], totalFiles = 3, totalGroups = 1 \<rparr> \<and>
        groupName g = ''app'' \<and>
        map name (files g) = [''app.log.2'', ''app.log.1'', ''app.log'']"
      using g2 g3 by (intro conjI)
    show "\<exists>g. scan collate env folders =
          Inr \<lparr> resp_groups = [g], totalFiles = 3, totalGroups = 1 \<rparr> \<and>
        groupName g = ''app'' \<and>
        map name (files g) = [''app.log.2'', ''app.log.1'', ''app.log'']"
      by (rule exI[of _ g]) (rule *)
  qed
qed

lemma demo_collect:
  "scan_collect demo_scan_env [''/logs''] =
     [demo_log_file ''app.log.1'', demo_log_file ''app.log'', demo_log_file ''app.log.2'']"
  by code_simp

text \<open>
  The scan of the example directory, whose files come in the order
  \<open>app.log.1\<close>, \<open>app.log\<close>, \<open>app.log.2\<close>.
\<close>

theorem C1_witness:
  "length (scan_collect demo_scan_env [''/logs'']) = 3 \<and>
   set (map name (scan_collect demo_scan_env [''/logs''])) =
     {''app.log'', ''app.log.1'', ''app.log.2''} \<and>
   (\<exists>g. scan demo_collate demo_scan_env [''/logs''] =
           Inr \<lparr> resp_groups = [g], totalFiles = 3, totalGroups = 1 \<rparr> \<and>
         groupName g = ''app'' \<and>
         map name (files g) = [''app.log.2'', ''app.log.1'', ''app.log''])"
proof -
  have l: "length (scan_collect demo_scan_env [''/logs'']) = 3"
    by (simp add: demo_collect)
  have n: "set (map name (scan_collect demo_scan_env [''/logs''])) =
      {''app.log'', ''app.log.1'', ''app.log.2''}"
    by (simp add: demo_collect demo_log_file_def insert_commute)
  from C1_grouping[OF l n, of demo_collate] l n show ?thesis by simp
qed


section \<open>Sidecar files in the scan and in the listing\<close>

lemma rx_search_None:
  "rx_search ic r n s (rx_run ic r (n, s, [])) = None \<longleftrightarrow>
     (\<forall>j\<le>length s. rx_run ic r (n + j, drop j s, []) = [])"
proof (induction s arbitrary: n)
  case Nil
  show ?case by (cases "rx_run ic r (n, [], [])") auto
next
  case (Cons x xs)
  show ?case
  proof (cases "rx_run ic r (n, x # xs, [])")
    case Nil
    have "(\<forall>j\<le>length (x # xs). rx_run ic r (n + j, drop j (x # xs), []) = []) \<longleftrightarrow>
          (\<forall>j\<le>length xs. rx_run ic r (Suc n + j, drop j xs, []) = [])"
    proof
      assume a: "\<forall>j\<le>length (x # xs). rx_run ic r (n + j, drop j (x # xs), []) = []"
      show "\<forall>j\<le>length xs. rx_run ic r (Suc n + j, drop j xs, []) = []"
      proof (intro allI impI)
        fix j assume "j \<le> length xs"
        with a[rule_format, of "Suc j"] show "rx_run ic r (Suc n + j, drop j xs, []) = []"
          by simp
      qed
    next
      assume a: "\<forall>j\<le>length xs. rx_run ic r (Suc n + j, drop j xs, []) = []"
      show "\<forall>j\<le>length (x # xs). rx_run ic r (n + j, drop j (x # xs), []) = []"
      proof (intro allI impI)
        fix j assume j: "j \<le> length (x # xs)"
        show "rx_run ic r (n + j, drop j (x # xs), []) = []"
        proof (cases j)
          case 0
          with Nil show ?thesis by simp
        next
          case (Suc k)
          with j a[rule_format, of k] show ?thesis by simp
        qed
      qed
    qed
    with Nil Cons.IH[of "Suc n"] show ?thesis by simp
  next
    case (Cons m ms)
    obtain n' s' caps where m: "m = (n', s', caps)" by (cases m)
    have "rx_run ic r (n + 0, drop 0 (x # xs), []) \<noteq> []" using Cons by simp
    then have "\<not> (\<forall>j\<le>length (x # xs). rx_run ic r (n + j, drop j (x # xs), []) = [])"
      by blast
    with Cons m show ?thesis by simp
  qed
qed

lemma rx_test_iff:
  "rx_test ic r s \<longleftrightarrow> (\<exists>j\<le>length s. rx_run ic r (j, drop j s, []) \<noteq> [])"
proof -
  have "rx_exec ic r s = None \<longleftrightarrow> (\<forall>j\<le>length s. rx_run ic r (0 + j, drop j s, []) = [])"
    unfolding rx_exec_def by (rule rx_search_None)
  then show ?thesis by (auto simp: rx_test_def split: option.splits)
qed

lemma rx_test_Alt: "rx_test ic (Alt a b) s \<longleftrightarrow> rx_test ic a s \<or> rx_test ic b s"
  by (auto simp: rx_test_iff)

lemma browse_accepts_owner:
  assumes "rx_test True LOG_OWNER_REGEX nm"
  shows "rx_test True BROWSE_LOG_FILE_REGEX nm"
  using assms unfolding BROWSE_LOG_FILE_REGEX_def LOG_OWNER_REGEX_def rx_test_Alt by (rule disjI2)

lemma set_insert_sorted: "set (insert_sorted cmp x ys) = insert x (set ys)"
  by (induction ys) auto

lemma set_array_sort: "set (array_sort cmp xs) = set xs"
proof -
  have "set (foldl (\<lambda>acc x. insert_sorted cmp x acc) acc xs) = set acc \<union> set xs" for acc
    by (induction xs arbitrary: acc) (auto simp: set_insert_sorted)
  then show ?thesis by (simp add: array_sort_def)
qed

lemma set_object_entries: "set (object_entries kvs) = set kvs"
  by (auto simp: object_entries_def)

lemma add_to_group_members:
  assumes "add_to_group gs file = Inr gs'" "\<forall>kv\<in>set gs. set (snd kv) \<subseteq> S" "file \<in> S"
  shows "\<forall>kv\<in>set gs'. set (snd kv) \<subseteq> S"
proof (cases "map_of gs (group_key (name file))")
  case None
  with assms(1) have "gs' = gs @ [(group_key (name file), [file])]"
    by (simp add: add_to_group_def Let_def split: if_splits)
  with assms(2,3) show ?thesis by auto
next
  case (Some fs)
  with assms(1) have "gs' = map (\<lambda>(k, v). if k = group_key (name file) then (k, v @ [file])
                                       else (k, v)) gs"
    by (simp add: add_to_group_def Let_def)
  with assms(2,3) show ?thesis by (fastforce split: if_splits)
qed

lemma group_files_members:
  assumes "group_files gs fs = Inr gs'" "\<forall>kv\<in>set gs. set (snd kv) \<subseteq> S" "set fs \<subseteq> S"
  shows "\<forall>kv\<in>set gs'. set (snd kv) \<subseteq> S"
  using assms
proof (induction fs arbitrary: gs)
  case Nil
  then show ?case by simp
next
  case (Cons f fs)
  from Cons.prems(1) obtain gs1 where a: "add_to_group gs f = Inr gs1"
    and l: "group_files gs1 fs = Inr gs'"
    by (auto split: sum.splits)
  from Cons.prems(3) have "f \<in> S" "set fs \<subseteq> S" by simp_all
  from Cons.IH[OF l add_to_group_members[OF a Cons.prems(2) this(1)] this(2)] show ?case .
qed

lemma scan_groups_members:
  assumes "scan_groups collate allFiles = Inr gs" "g \<in> set gs" "f \<in> set (files g)"
  shows "f \<in> set allFiles"
proof -
  from assms(1) obtain grouped where gr: "group_files [] allFiles = Inr grouped"
    and gs: "gs = array_sort (\<lambda>a b. collate (groupName a) (groupName b))
                    (map make_group (object_entries grouped))"
    by (auto simp: scan_groups_def split: sum.splits)
  from assms(2) gs obtain kv where kv: "kv \<in> set grouped" "g = make_group kv"
    by (auto simp: set_array_sort set_object_entries)
  with assms(3) have "f \<in> set (snd kv)"
    by (simp add: make_group_def Let_def set_array_sort)
  moreover from group_files_members[OF gr, of "set allFiles"]
  have "\<forall>kv\<in>set grouped. set (snd kv) \<subseteq> set allFiles" by simp
  ultimately show ?thesis using kv(1) by blast
qed

lemma scan_file_eligible:
  assumes "f \<in> set (scan_file env resolved p)"
  shows "scan_eligible (name f)"
  using assms
  by (auto simp: scan_file_def scan_eligible_def Let_def split: if_splits option.splits)

lemma scan_collect_eligible:
  assumes "f \<in> set (scan_collect env folders)"
  shows "scan_eligible (name f)"
  using assms
  by (auto simp: scan_collect_def scan_folder_def Let_def split: if_splits
      dest: scan_file_eligible)

lemma scan_response_eligible:
  assumes "scan collate env folders = Inr r" "g \<in> set (resp_groups r)" "f \<in> set (files g)"
  shows "scan_eligible (name f)"
proof -
  from assms(1) have "scan_groups collate (scan_collect env folders) = Inr (resp_groups r)"
    by (auto simp: scan_def Let_def split: if_splits sum.splits)
  from scan_groups_members[OF this assms(2,3)] show ?thesis by (rule scan_collect_eligible)
qed


lemma prototype_keys_not_owner:
  "list_all (\<lambda>k. \<not> rx_test True LOG_OWNER_REGEX k) object_prototype_keys"
  by code_simp

lemma owner_not_inherited:
  assumes "rx_test True LOG_OWNER_REGEX nm"
  shows "nm \<notin> set object_prototype_keys"
  using assms prototype_keys_not_owner by (auto simp: list_all_iff)

lemma browse_entries_names:
  assumes "browse_entries env resolved (folders, fls) entries = Inr (folders', fls')"
  shows "bf_name ` set fls \<subseteq> bf_name ` set fls' \<and>
         (\<forall>e\<in>set entries. \<not> is_hidden (entry_name e) \<longrightarrow> \<not> entry_isDirectory e \<longrightarrow>
            rx_test True BROWSE_LOG_FILE_REGEX (entry_name e) \<longrightarrow>
            entry_name e \<in> bf_name ` set fls')"
  using assms
proof (induction entries arbitrary: folders fls)
  case Nil
  then show ?case by simp
next
  case (Cons entry rest)
  show ?case
  proof (cases "is_hidden (entry_name entry)")
    case True
    with Cons.prems have "browse_entries env resolved (folders, fls) rest = Inr (folders', fls')"
      by simp
    from Cons.IH[OF this] True show ?thesis by auto
  next
    case nh: False
    show ?thesis
    proof (cases "entry_isDirectory entry")
      case True
      with nh Cons.prems have "browse_entries env resolved
          (folders @ [\<lparr> folder_name = entry_name entry,
                         folder_path = b_join env resolved (entry_name entry) \<rparr>], fls) rest =
          Inr (folders', fls')"
        by simp
      from Cons.IH[OF this] True show ?thesis by auto
    next
      case nd: False
      show ?thesis
      proof (cases "rx_test True BROWSE_LOG_FILE_REGEX (entry_name entry)")
        case False
        with nh nd Cons.prems have "browse_entries env resolved (folders, fls) rest =
            Inr (folders', fls')"
          by simp
        from Cons.IH[OF this] False show ?thesis by auto
      next
        case True
        with nh nd Cons.prems obtain sz mtime where
          st: "b_stat env (b_join env resolved (entry_name entry)) = Some (sz, mtime)"
          by (cases "b_stat env (b_join env resolved (entry_name entry))") auto
        let ?file = "\<lparr> bf_name = entry_name entry,
                         bf_path = b_join env resolved (entry_name entry),
                         bf_size = sz, bf_modified = mtime \<rparr>"
        from nh nd True st Cons.prems
        have "browse_entries env resolved (folders, fls @ [?file]) rest = Inr (folders', fls')"
          by simp
        from Cons.IH[OF this]
        have sub: "bf_name ` set (fls @ [?file]) \<subseteq> bf_name ` set fls'"
          and rest: "\<forall>e\<in>set rest. \<not> is_hidden (entry_name e) \<longrightarrow> \<not> entry_isDirectory e \<longrightarrow>
            rx_test True BROWSE_LOG_FILE_REGEX (entry_name e) \<longrightarrow>
            entry_name e \<in> bf_name ` set fls'"
          by simp_all
        from sub have "entry_name entry \<in> bf_name ` set fls'" by auto
        moreover from sub have "bf_name ` set fls \<subseteq> bf_name ` set fls'" by auto
        ultimately show ?thesis using rest by auto
      qed
    qed
  qed
qed

lemma update_key_Cons:
  "update_key k F (kv # gs) =
     (if fst kv = k then (fst kv, F (snd kv)) else kv) # update_key k F gs"
  by (cases kv) (simp add: update_key_def)

lemma update_key_Nil: "update_key k F [] = []"
  by (simp add: update_key_def)

lemma object_names_Cons: "object_names (kv # gs) = names_of_group (snd kv) @ object_names gs"
  by (simp add: object_names_def)

lemma object_names_Nil: "object_names [] = []"
  by (simp add: object_names_def)

lemma object_names_append: "object_names (gs @ hs) = object_names gs @ object_names hs"
  by (simp add: object_names_def)

lemma names_add_rolled:
  "set (names_of_group (g\<lparr>rolled := rolled g @ [e]\<rparr>)) =
     insert (bf_name (fst e)) (set (names_of_group g))"
  by (cases "base g") (auto simp: names_of_group_def)

lemma names_set_base:
  assumes "\<forall>c. base g = Some c \<longrightarrow> bf_name c = bf_name b"
  shows "set (names_of_group (g\<lparr>base := Some b\<rparr>)) = insert (bf_name b) (set (names_of_group g))"
  using assms by (cases "base g") (auto simp: names_of_group_def)

lemma names_update_rolled:
  "set (object_names (update_key k (\<lambda>g. g\<lparr>rolled := rolled g @ [e]\<rparr>) gs)) =
     set (object_names gs) \<union> (if k \<in> fst ` set gs then {bf_name (fst e)} else {})"
proof (induction gs)
  case Nil
  show ?case by (simp add: update_key_Nil object_names_Nil)
next
  case (Cons kv gs)
  show ?case
  proof (cases "fst kv = k")
    case True
    with Cons.IH show ?thesis
      by (auto simp: update_key_Cons object_names_Cons names_add_rolled)
  next
    case False
    with Cons.IH show ?thesis
      by (auto simp: update_key_Cons object_names_Cons)
  qed
qed

lemma base_named_Cons:
  "base_named (kv # gs) \<longleftrightarrow>
     (\<forall>b. base (snd kv) = Some b \<longrightarrow> bf_name b = fst kv) \<and> base_named gs"
  by (simp add: base_named_def)

lemma base_named_update_rolled:
  "base_named (update_key k (\<lambda>g. g\<lparr>rolled := rolled g @ [e]\<rparr>) gs) = base_named gs"
  by (induction gs) (simp_all add: update_key_Cons update_key_Nil base_named_Cons)

lemma names_update_base:
  assumes "base_named gs"
  shows "set (object_names (update_key (bf_name b) (\<lambda>g. g\<lparr>base := Some b\<rparr>) gs)) =
         set (object_names gs) \<union> (if bf_name b \<in> fst ` set gs then {bf_name b} else {})"
  using assms
proof (induction gs)
  case Nil
  show ?case by (simp add: update_key_Nil object_names_Nil)
next
  case (Cons kv gs)
  let ?F = "\<lambda>g. g\<lparr>base := Some b\<rparr>"
  from Cons.prems have bn: "base_named gs"
    and hd: "\<forall>c. base (snd kv) = Some c \<longrightarrow> bf_name c = fst kv"
    unfolding base_named_Cons by blast+
  note ih = Cons.IH[OF bn]
  show ?case
  proof (cases "fst kv = bf_name b")
    case True
    have u: "update_key (bf_name b) ?F (kv # gs) =
        (fst kv, ?F (snd kv)) # update_key (bf_name b) ?F gs"
      unfolding update_key_Cons using True by simp
    from hd True have "\<forall>c. base (snd kv) = Some c \<longrightarrow> bf_name c = bf_name b" by metis
    from names_set_base[OF this]
    have n: "set (names_of_group (?F (snd kv))) = insert (bf_name b) (set (names_of_group (snd kv)))" .
    have m: "bf_name b \<in> fst ` set (kv # gs)" using True by force
    have "set (object_names (update_key (bf_name b) ?F (kv # gs))) =
        set (names_of_group (?F (snd kv))) \<union> set (object_names (update_key (bf_name b) ?F gs))"
      unfolding u object_names_Cons by simp
    also have "\<dots> = insert (bf_name b) (set (names_of_group (snd kv))) \<union>
        (set (object_names gs) \<union> (if bf_name b \<in> fst ` set gs then {bf_name b} else {}))"
      unfolding n ih ..
    also have "\<dots> = set (object_names (kv # gs)) \<union> {bf_name b}"
      unfolding object_names_Cons by auto
    finally show ?thesis using m by simp
  next
    case False
    have u: "update_key (bf_name b) ?F (kv # gs) = kv # update_key (bf_name b) ?F gs"
      unfolding update_key_Cons using False by simp
    have m: "bf_name b \<in> fst ` set (kv # gs) \<longleftrightarrow> bf_name b \<in> fst ` set gs"
      using False by auto
    have "set (object_names (update_key (bf_name b) ?F (kv # gs))) =
        set (names_of_group (snd kv)) \<union> set (object_names (update_key (bf_name b) ?F gs))"
      unfolding u object_names_Cons by simp
    also have "\<dots> = set (names_of_group (snd kv)) \<union>
        (set (object_names gs) \<union> (if bf_name b \<in> fst ` set gs then {bf_name b} else {}))"
      unfolding ih ..
    also have "\<dots> = set (object_names (kv # gs)) \<union>
        (if bf_name b \<in> fst ` set gs then {bf_name b} else {})"
      unfolding object_names_Cons by auto
    finally show ?thesis unfolding m .
  qed
qed

lemma base_named_update_base:
  assumes "base_named gs"
  shows "base_named (update_key (bf_name b) (\<lambda>g. g\<lparr>base := Some b\<rparr>) gs)"
  using assms
proof (induction gs)
  case Nil
  then show ?case by (simp add: update_key_Nil)
next
  case (Cons kv gs)
  from Cons.prems have bn: "base_named gs"
    and hd: "\<forall>c. base (snd kv) = Some c \<longrightarrow> bf_name c = fst kv"
    unfolding base_named_Cons by blast+
  note ih = Cons.IH[OF bn]
  show ?case
  proof (cases "fst kv = bf_name b")
    case True
    then show ?thesis unfolding update_key_Cons base_named_Cons using ih by simp
  next
    case False
    then show ?thesis unfolding update_key_Cons base_named_Cons using ih hd by simp
  qed
qed

lemma base_named_snoc:
  assumes "base_named gs" "\<forall>b. base g = Some b \<longrightarrow> bf_name b = k"
  shows "base_named (gs @ [(k, g)])"
  using assms unfolding base_named_def by auto

lemma map_of_key: "map_of gs k = Some g \<Longrightarrow> k \<in> fst ` set gs"
  by (induction gs) (auto split: if_splits)

lemma browse_group_step_names:
  assumes "browse_group_step fls acc file = Inr acc'" "base_named (fst acc)"
  shows "base_named (fst acc') \<and> group_names acc \<subseteq> group_names acc' \<and>
         (bf_name file \<notin> set object_prototype_keys \<longrightarrow> bf_name file \<in> group_names acc')"
proof (cases "rx_exec True BROWSE_ROLLED_REGEX (bf_name file)")
  case (Some m)
  let ?k = "group_text m 1"
  let ?e = "(file, parse_digits (group_text m 2))"
  show ?thesis
  proof (cases "map_of (fst acc) ?k")
    case g: (Some g)
    with Some assms(1) have acc': "acc' =
        (update_key ?k (\<lambda>g. g\<lparr>rolled := rolled g @ [?e]\<rparr>) (fst acc), snd acc)"
      by (simp add: browse_group_step_def Let_def)
    from map_of_key[OF g] have k: "?k \<in> fst ` set (fst acc)" .
    have n: "set (object_names (fst acc')) = insert (bf_name file) (set (object_names (fst acc)))"
      unfolding acc' using k by (simp add: names_update_rolled)
    have b: "base_named (fst acc')"
      unfolding acc' using assms(2) by (simp add: base_named_update_rolled)
    have s: "snd acc' = snd acc" unfolding acc' by simp
    from n b s show ?thesis by (auto simp: group_names_def)
  next
    case None
    with Some assms(1) have acc': "acc' =
        (fst acc @ [(?k, \<lparr> base = None, rolled = [?e] \<rparr>)], snd acc)"
      by (simp add: browse_group_step_def Let_def split: if_splits)
    have n: "set (object_names (fst acc')) = insert (bf_name file) (set (object_names (fst acc)))"
      unfolding acc' by (simp add: object_names_append object_names_Cons object_names_Nil
          names_of_group_def)
    have b: "base_named (fst acc')"
      unfolding acc' using assms(2) by (simp add: base_named_snoc)
    have s: "snd acc' = snd acc" unfolding acc' by simp
    from n b s show ?thesis by (auto simp: group_names_def)
  qed
next
  case None
  let ?k = "bf_name file"
  show ?thesis
  proof (cases "list_ex (\<lambda>f. rx_test True (rolled_sibling_regex (bf_name file)) (bf_name f)) fls")
    case False
    with None assms(1) have acc': "acc' = (fst acc, snd acc @ [file])"
      by (simp add: browse_group_step_def Let_def)
    from assms(2) show ?thesis unfolding acc' by (auto simp: group_names_def)
  next
    case hasRolled: True
    show ?thesis
    proof (cases "map_of (fst acc) ?k")
      case g: (Some g)
      with None hasRolled assms(1) have acc': "acc' =
          (update_key ?k (\<lambda>g. g\<lparr>base := Some file\<rparr>) (fst acc), snd acc)"
        by (simp add: browse_group_step_def Let_def)
      from map_of_key[OF g] have k: "?k \<in> fst ` set (fst acc)" .
      have n: "set (object_names (fst acc')) = insert (bf_name file) (set (object_names (fst acc)))"
        unfolding acc' using k names_update_base[OF assms(2), where b = "file"] by simp
      have b: "base_named (fst acc')"
        unfolding acc' using base_named_update_base[OF assms(2), where b = "file"] by simp
      have s: "snd acc' = snd acc" unfolding acc' by simp
      from n b s show ?thesis by (auto simp: group_names_def)
    next
      case n: None
      show ?thesis
      proof (cases "?k \<in> set object_prototype_keys")
        case True
        with None n hasRolled assms(1) have "acc' = acc"
          by (simp add: browse_group_step_def Let_def)
        with True assms(2) show ?thesis by simp
      next
        case False
        with None n hasRolled assms(1) have acc': "acc' =
            (fst acc @ [(?k, \<lparr> base = Some file, rolled = [] \<rparr>)], snd acc)"
          by (simp add: browse_group_step_def Let_def)
        have nn: "set (object_names (fst acc')) =
            insert (bf_name file) (set (object_names (fst acc)))"
          unfolding acc' by (simp add: object_names_append object_names_Cons object_names_Nil
              names_of_group_def)
        have b: "base_named (fst acc')"
          unfolding acc' using assms(2) by (simp add: base_named_snoc)
        have s: "snd acc' = snd acc" unfolding acc' by simp
        from nn b s show ?thesis by (auto simp: group_names_def)
      qed
    qed
  qed
qed

lemma browse_group_loop_names:
  assumes "browse_group_loop fls acc fs = Inr acc'" "base_named (fst acc)"
  shows "base_named (fst acc') \<and> group_names acc \<subseteq> group_names acc' \<and>
         (\<forall>f\<in>set fs. bf_name f \<notin> set object_prototype_keys \<longrightarrow> bf_name f \<in> group_names acc')"
  using assms
proof (induction fs arbitrary: acc)
  case Nil
  then show ?case by simp
next
  case (Cons f fs)
  from Cons.prems(1) obtain acc1 where s: "browse_group_step fls acc f = Inr acc1"
    and l: "browse_group_loop fls acc1 fs = Inr acc'"
    by (auto split: sum.splits)
  from browse_group_step_names[OF s Cons.prems(2)]
  have 1: "base_named (fst acc1)" "group_names acc \<subseteq> group_names acc1"
    "bf_name f \<notin> set object_prototype_keys \<longrightarrow> bf_name f \<in> group_names acc1"
    by simp_all
  from Cons.IH[OF l 1(1)]
  have 2: "base_named (fst acc')" "group_names acc1 \<subseteq> group_names acc'"
    "\<forall>f\<in>set fs. bf_name f \<notin> set object_prototype_keys \<longrightarrow> bf_name f \<in> group_names acc'"
    by simp_all
  from 1 2 show ?case by auto
qed

lemma make_file_group_names:
  "set (map (\<lambda>f. bf_name (fst f)) (group_files_list (make_file_group kv))) =
     set (names_of_group (snd kv))"
proof -
  have "(\<lambda>f. bf_name (fst f)) ` (\<lambda>(f, n). (f, Some n)) ` X = (\<lambda>e. bf_name (fst e)) ` X"
    for X :: "(browse_file \<times> int) set"
    by force
  then show ?thesis
    by (cases "base (snd kv)")
       (simp_all add: make_file_group_def Let_def names_of_group_def set_array_sort)
qed

lemma file_groups_names:
  "set (concat (map (\<lambda>g. map (\<lambda>f. bf_name (fst f)) (group_files_list g))
          (array_sort cmp (map make_file_group (object_entries gs))))) =
     set (object_names gs)"
proof -
  have "set (concat (map (\<lambda>g. map (\<lambda>f. bf_name (fst f)) (group_files_list g))
          (array_sort cmp (map make_file_group (object_entries gs))))) =
      (\<Union>g\<in>set (array_sort cmp (map make_file_group (object_entries gs))).
         set (map (\<lambda>f. bf_name (fst f)) (group_files_list g)))"
    by simp
  also have "\<dots> = (\<Union>kv\<in>set gs. set (map (\<lambda>f. bf_name (fst f))
                        (group_files_list (make_file_group kv))))"
    unfolding set_array_sort by (simp add: set_object_entries)
  also have "\<dots> = (\<Union>kv\<in>set gs. set (names_of_group (snd kv)))"
    unfolding make_file_group_names ..
  also have "\<dots> = set (object_names gs)"
    by (simp add: object_names_def)
  finally show ?thesis .
qed

lemma browse_unfold:
  assumes "browse collate env body_path = Inr r"
  obtains folders0 files0 gs standalone where
    "browse_entries env (current r) ([], []) (the (b_readdir env (current r))) =
       Inr (folders0, files0)"
    "b_readdir env (current r) \<noteq> None"
    "browse_group_loop (array_sort (\<lambda>a b. collate (bf_name a) (bf_name b)) files0) ([], [])
       (array_sort (\<lambda>a b. collate (bf_name a) (bf_name b)) files0) = Inr (gs, standalone)"
    "resp_files r = standalone"
    "fileGroups r = array_sort (\<lambda>a b. collate (baseName a) (baseName b))
                      (map make_file_group (object_entries gs))"
proof -
  let ?resolved = "b_resolve env (if body_path = [] then b_cwd env else body_path)"
  from assms obtain entries where rd: "b_readdir env ?resolved = Some entries"
    by (cases "b_readdir env ?resolved") (simp_all add: browse_def Let_def split: if_splits)
  from assms rd obtain folders0 files0 where
    be: "browse_entries env ?resolved ([], []) entries = Inr (folders0, files0)"
    by (cases "browse_entries env ?resolved ([], []) entries")
       (auto simp: browse_def Let_def split: if_splits)
  let ?fls = "array_sort (\<lambda>a b. collate (bf_name a) (bf_name b)) files0"
  from assms rd be obtain gs standalone where
    gl: "browse_group_loop ?fls ([], []) ?fls = Inr (gs, standalone)"
    by (cases "browse_group_loop ?fls ([], []) ?fls")
       (auto simp: browse_def Let_def split: if_splits)
  from assms rd be gl have r: "current r = ?resolved" "resp_files r = standalone"
    "fileGroups r = array_sort (\<lambda>a b. collate (baseName a) (baseName b))
                      (map make_file_group (object_entries gs))"
    by (auto simp: browse_def Let_def split: if_splits)
  from rd be gl r that[of folders0 files0 gs standalone] show ?thesis by simp
qed

lemma browse_lists:
  assumes "browse collate env body_path = Inr r"
    and "b_readdir env (current r) = Some entries" "e \<in> set entries"
    and "\<not> is_hidden (entry_name e)" "\<not> entry_isDirectory e"
    and "rx_test True BROWSE_LOG_FILE_REGEX (entry_name e)"
    and "entry_name e \<notin> set object_prototype_keys"
  shows "entry_name e \<in> set (listed_names collate env body_path)"
proof -
  from assms(1) obtain folders0 files0 gs standalone where
    be: "browse_entries env (current r) ([], []) (the (b_readdir env (current r))) =
       Inr (folders0, files0)"
    and gl: "browse_group_loop (array_sort (\<lambda>a b. collate (bf_name a) (bf_name b)) files0) ([], [])
       (array_sort (\<lambda>a b. collate (bf_name a) (bf_name b)) files0) = Inr (gs, standalone)"
    and rf: "resp_files r = standalone"
    and fg: "fileGroups r = array_sort (\<lambda>a b. collate (baseName a) (baseName b))
                      (map make_file_group (object_entries gs))"
    by (rule browse_unfold)
  from be assms(2) have "browse_entries env (current r) ([], []) entries = Inr (folders0, files0)"
    by simp
  from browse_entries_names[OF this] assms(3-6)
  have "entry_name e \<in> bf_name ` set files0" by blast
  then obtain f where f: "f \<in> set files0" "bf_name f = entry_name e" by auto
  let ?fls = "array_sort (\<lambda>a b. collate (bf_name a) (bf_name b)) files0"
  have bn: "base_named (fst (([], []) :: rolled_group js_object \<times> browse_file list))"
    by (simp add: base_named_def)
  from f(1) have "f \<in> set ?fls" by (simp add: set_array_sort)
  with browse_group_loop_names[OF gl bn] f(2) assms(7)
  have "entry_name e \<in> group_names (gs, standalone)" by auto
  then have "entry_name e \<in> set (map bf_name standalone) \<union> set (object_names gs)"
    by (simp add: group_names_def)
  moreover have "listed_names collate env body_path =
      map bf_name standalone @
      concat (map (\<lambda>g. map (\<lambda>f. bf_name (fst f)) (group_files_list g))
        (array_sort (\<lambda>a b. collate (baseName a) (baseName b))
           (map make_file_group (object_entries gs))))"
    unfolding listed_names_def assms(1) using rf fg by simp
  then have "set (listed_names collate env body_path) =
      set (map bf_name standalone) \<union> set (object_names gs)"
    by (simp only: set_append file_groups_names)
  ultimately show ?thesis by simp
qed

lemma owner_example: "rx_test True LOG_OWNER_REGEX ''app.log.owner''"
  by code_simp

lemma demo_browse: "browse demo_collate demo_browse_env [] = Inr demo_listing_response"
  by code_simp

lemma demo_listing:
  "listed_names demo_collate demo_browse_env [] =
     [''app.log.owner'', ''app.log.2'', ''app.log.1'', ''app.log'']"
  by code_simp

text \<open>
  Claim C7 as stated fails for the listing: the sidecar file \<open>app.log.owner\<close> of the example
  directory is among the files of the \<open>browse\<close> response.
\<close>

theorem C7_counterexample:
  "rx_test True LOG_OWNER_REGEX ''app.log.owner'' \<and>
   browse demo_collate demo_browse_env [] = Inr demo_listing_response \<and>
   map bf_name (resp_files demo_listing_response) = [''app.log.owner''] \<and>
   listed_names demo_collate demo_browse_env [] =
     [''app.log.owner'', ''app.log.2'', ''app.log.1'', ''app.log''] \<and>
   ''app.log.owner'' \<in> set (listed_names demo_collate demo_browse_env [])"
  using owner_example demo_browse
  by (simp add: demo_listing demo_listing_response_def demo_browse_file_def)

text \<open>
  Claim C7, amended. A name that matches \<open>.log.<letters>\<close> is not eligible for the scan, and no
  file of that name is in any group of a scan response. The single-directory listing does
  not exclude such a name: its pattern accepts it, and whenever \<open>browse\<close> returns a listing of
  a directory that has an entry of that name which is not hidden and not a directory, the
  name is among the listed files, alone or in a group.
\<close>

theorem C7_owner_files:
  assumes "rx_test True LOG_OWNER_REGEX nm"
  shows "\<not> scan_eligible nm \<and>
         (\<forall>collate env folders. nm \<notin> set (scanned_names collate env folders)) \<and>
         rx_test True BROWSE_LOG_FILE_REGEX nm \<and>
         (\<not> is_hidden nm \<longrightarrow> browse_eligible nm) \<and>
         (\<forall>collate env body_path r entries e.
            browse collate env body_path = Inr r \<longrightarrow>
            b_readdir env (current r) = Some entries \<longrightarrow>
            e \<in> set entries \<longrightarrow> entry_name e = nm \<longrightarrow> \<not> entry_isDirectory e \<longrightarrow>
            \<not> is_hidden nm \<longrightarrow>
            nm \<in> set (listed_names collate env body_path))"
proof -
  have 1: "\<not> scan_eligible nm" using assms by (simp add: scan_eligible_def)
  have 2: "nm \<notin> set (scanned_names collate env folders)" for collate env folders
  proof (cases "scan collate env folders")
    case (Inl e)
    then show ?thesis by (simp add: scanned_names_def)
  next
    case (Inr r)
    show ?thesis
    proof
      assume "nm \<in> set (scanned_names collate env folders)"
      with Inr obtain g f where "g \<in> set (resp_groups r)" "f \<in> set (files g)" "name f = nm"
        by (auto simp: scanned_names_def)
      with scan_response_eligible[OF Inr, of g f] 1 show False by simp
    qed
  qed
  have 3: "rx_test True BROWSE_LOG_FILE_REGEX nm" using assms by (rule browse_accepts_owner)
  have 4: "\<not> is_hidden nm \<longrightarrow> browse_eligible nm" using 3 by (simp add: browse_eligible_def)
  have 5: "nm \<in> set (listed_names collate env body_path)"
    if "browse collate env body_path = Inr r" "b_readdir env (current r) = Some entries"
      "e \<in> set entries" "entry_name e = nm" "\<not> entry_isDirectory e" "\<not> is_hidden nm"
    for collate env body_path r entries e
  proof -
    from that(4,6) have h: "\<not> is_hidden (entry_name e)" by simp
    from that(4) 3 have t: "rx_test True BROWSE_LOG_FILE_REGEX (entry_name e)" by simp
    from that(4) owner_not_inherited[OF assms]
    have k: "entry_name e \<notin> set object_prototype_keys" by simp
    from browse_lists[OF that(1,2,3) h that(5) t k] that(4) show ?thesis by simp
  qed
  from 1 2 3 4 5 show ?thesis by blast
qed

text \<open>The name \<open>app.log.owner\<close>, the scan and the listing of the example directory.\<close>

theorem C7_witness:
  "rx_test True LOG_OWNER_REGEX ''app.log.owner'' \<and>
   \<not> scan_eligible ''app.log.owner'' \<and>
   ''app.log.owner'' \<notin> set (scanned_names demo_collate demo_scan_env [''/logs'']) \<and>
   \<not> is_hidden ''app.log.owner'' \<and>
   browse_eligible ''app.log.owner'' \<and>
   browse demo_collate demo_browse_env [] = Inr demo_listing_response \<and>
   b_readdir demo_browse_env (current demo_listing_response) =
     Some (map (\<lambda>n. \<lparr> entry_name = n, entry_isDirectory = False \<rparr>) demo_names) \<and>
   \<lparr> entry_name = ''app.log.owner'', entry_isDirectory = False \<rparr> \<in>
     set (map (\<lambda>n. \<lparr> entry_name = n, entry_isDirectory = False \<rparr>) demo_names) \<and>
   ''app.log.owner'' \<in> set (listed_names demo_collate demo_browse_env [])"
proof -
  let ?entries = "map (\<lambda>n. \<lparr> entry_name = n, entry_isDirectory = False \<rparr>) demo_names"
  let ?e = "\<lparr> entry_name = ''app.log.owner'', entry_isDirectory = False \<rparr>"
  have h: "\<not> is_hidden ''app.log.owner''" by (simp add: is_hidden_def)
  have rd: "b_readdir demo_browse_env (current demo_listing_response) = Some ?entries"
    by (simp add: demo_browse_env_def demo_listing_response_def)
  have m: "?e \<in> set ?entries" by (simp add: demo_names_def)
  have n: "entry_name ?e = ''app.log.owner''" "\<not> entry_isDirectory ?e" by simp_all
  note c = C7_owner_files[OF owner_example]
  from c have 1: "\<not> scan_eligible ''app.log.owner''" by (rule conjunct1)
  from c have 2: "''app.log.owner'' \<notin> set (scanned_names demo_collate demo_scan_env [''/logs''])"
    by (elim conjE allE[of _ demo_collate] allE[of _ demo_scan_env] allE[of _ "[''/logs'']"])
  from c h have 3: "browse_eligible ''app.log.owner''"
    by (elim conjE impE)
  from c have "\<forall>collate env body_path r entries e.
            browse collate env body_path = Inr r \<longrightarrow>
            b_readdir env (current r) = Some entries \<longrightarrow>
            e \<in> set entries \<longrightarrow> entry_name e = ''app.log.owner'' \<longrightarrow> \<not> entry_isDirectory e \<longrightarrow>
            \<not> is_hidden ''app.log.owner'' \<longrightarrow>
            ''app.log.owner'' \<in> set (listed_names collate env body_path)"
    by (elim conjE)
  from this[rule_format, OF demo_browse rd m n h]
  have 4: "''app.log.owner'' \<in> set (listed_names demo_collate demo_browse_env [])" .
  from owner_example 1 2 h 3 demo_browse rd m 4 show ?thesis by (intro conjI)
qed


section \<open>Properties of the timestamp detection\<close>

lemma try_patterns_step:
  "try_patterns parse (p # ps) line =
     (case pattern_date parse p line of
        Some d \<Rightarrow> Some d
      | None \<Rightarrow> try_patterns parse ps line)"
  by (simp add: pattern_date_def split: option.splits)

lemma try_patterns_None:
  "try_patterns parse ps line = None \<longleftrightarrow> (\<forall>p\<in>set ps. pattern_date parse p line = None)"
proof (induction ps)
  case Nil
  show ?case by simp
next
  case (Cons p ps)
  show ?case unfolding try_patterns_step using Cons.IH by (simp split: option.splits)
qed

lemma try_patterns_Some:
  "try_patterns parse ps line = Some d \<longleftrightarrow>
     (\<exists>i<length ps. pattern_date parse (ps ! i) line = Some d \<and>
        (\<forall>j<i. pattern_date parse (ps ! j) line = None))"
proof (induction ps)
  case Nil
  show ?case by simp
next
  case (Cons p ps)
  show ?case
  proof (cases "pattern_date parse p line")
    case (Some e)
    have "(\<exists>i<length (p # ps). pattern_date parse ((p # ps) ! i) line = Some d \<and>
        (\<forall>j<i. pattern_date parse ((p # ps) ! j) line = None)) \<longleftrightarrow> e = d"
    proof
      assume "\<exists>i<length (p # ps). pattern_date parse ((p # ps) ! i) line = Some d \<and>
        (\<forall>j<i. pattern_date parse ((p # ps) ! j) line = None)"
      then obtain i where i: "pattern_date parse ((p # ps) ! i) line = Some d"
        "\<forall>j<i. pattern_date parse ((p # ps) ! j) line = None" by blast
      show "e = d"
      proof (cases i)
        case 0
        with i(1) Some show ?thesis by simp
      next
        case (Suc k)
        with i(2)[rule_format, of 0] Some show ?thesis by simp
      qed
    next
      assume "e = d"
      with Some have "pattern_date parse ((p # ps) ! 0) line = Some d \<and>
        (\<forall>j<0. pattern_date parse ((p # ps) ! j) line = None)" by simp
      then show "\<exists>i<length (p # ps). pattern_date parse ((p # ps) ! i) line = Some d \<and>
        (\<forall>j<i. pattern_date parse ((p # ps) ! j) line = None)" by blast
    qed
    with Some show ?thesis unfolding try_patterns_step by simp
  next
    case None
    have "(\<exists>i<length (p # ps). pattern_date parse ((p # ps) ! i) line = Some d \<and>
        (\<forall>j<i. pattern_date parse ((p # ps) ! j) line = None)) \<longleftrightarrow>
      (\<exists>i<length ps. pattern_date parse (ps ! i) line = Some d \<and>
        (\<forall>j<i. pattern_date parse (ps ! j) line = None))"
    proof
      assume "\<exists>i<length (p # ps). pattern_date parse ((p # ps) ! i) line = Some d \<and>
        (\<forall>j<i. pattern_date parse ((p # ps) ! j) line = None)"
      then obtain i where i: "i < length (p # ps)"
        "pattern_date parse ((p # ps) ! i) line = Some d"
        "\<forall>j<i. pattern_date parse ((p # ps) ! j) line = None" by blast
      from i(2) None obtain k where k: "i = Suc k" by (cases i) simp_all
      have "\<forall>j<k. pattern_date parse (ps ! j) line = None"
      proof (intro allI impI)
        fix j assume "j < k"
        with i(3)[rule_format, of "Suc j"] k show "pattern_date parse (ps ! j) line = None"
          by simp
      qed
      with i(1,2) k show "\<exists>i<length ps. pattern_date parse (ps ! i) line = Some d \<and>
        (\<forall>j<i. pattern_date parse (ps ! j) line = None)" by auto
    next
      assume "\<exists>i<length ps. pattern_date parse (ps ! i) line = Some d \<and>
        (\<forall>j<i. pattern_date parse (ps ! j) line = None)"
      then obtain i where i: "i < length ps" "pattern_date parse (ps ! i) line = Some d"
        "\<forall>j<i. pattern_date parse (ps ! j) line = None" by blast
      have "\<forall>j<Suc i. pattern_date parse ((p # ps) ! j) line = None"
      proof (intro allI impI)
        fix j assume "j < Suc i"
        with i(3) None show "pattern_date parse ((p # ps) ! j) line = None"
          by (cases j) simp_all
      qed
      with i(1,2) have "Suc i < length (p # ps) \<and>
          pattern_date parse ((p # ps) ! Suc i) line = Some d \<and>
          (\<forall>j<Suc i. pattern_date parse ((p # ps) ! j) line = None)" by simp
      then show "\<exists>i<length (p # ps). pattern_date parse ((p # ps) ! i) line = Some d \<and>
        (\<forall>j<i. pattern_date parse ((p # ps) ! j) line = None)" by blast
    qed
    with None Cons.IH show ?thesis unfolding try_patterns_step by simp
  qed
qed

lemma two_dates_first:
  "first_structural (tl TIMESTAMP_PATTERNS) two_dates_line =
     Some (0, \<lparr> m_index = 0, m_text = ''2024-13-45T10:30:00'',
                m_groups = [(1, ''2024-13-45T10:30:00'')] \<rparr>)"
  by code_simp

lemma two_dates_invalid: "demo_date_parse ''2024-13-45T10:30:00'' = None"
  by code_simp

lemma two_dates_result:
  "extractTimestamp demo_date two_dates_line = Some (Instant 2024 0 15 10 30 0 0)"
  by code_simp

lemma two_dates_early:
  "json_timestamp demo_date two_dates_line = None" "ws_timestamp demo_date two_dates_line = None"
  by code_simp+

text \<open>
  Claim C5 as stated fails: in the example line the first generic pattern that matches is
  the ISO one, on \<open>2024-13-45T10:30:00\<close>, which is no date; the loop goes on, the next pattern
  matches \<open>2024-01-15 10:30:00\<close>, and the line has that timestamp.
\<close>

theorem C5_counterexample:
  "first_structural (tl TIMESTAMP_PATTERNS) two_dates_line =
     Some (0, \<lparr> m_index = 0, m_text = ''2024-13-45T10:30:00'',
                m_groups = [(1, ''2024-13-45T10:30:00'')] \<rparr>) \<and>
   date_parse demo_date
     (raw_text \<lparr> m_index = 0, m_text = ''2024-13-45T10:30:00'',
                 m_groups = [(1, ''2024-13-45T10:30:00'')] \<rparr>) = None \<and>
   extractTimestamp demo_date two_dates_line = Some (Instant 2024 0 15 10 30 0 0)"
proof -
  have "raw_text \<lparr> m_index = 0, m_text = ''2024-13-45T10:30:00'',
                   m_groups = [(1, ''2024-13-45T10:30:00'')] \<rparr> = ''2024-13-45T10:30:00''"
    by code_simp
  then have "date_parse demo_date
     (raw_text \<lparr> m_index = 0, m_text = ''2024-13-45T10:30:00'',
                 m_groups = [(1, ''2024-13-45T10:30:00'')] \<rparr>) = None"
    by (simp add: demo_date_def two_dates_invalid)
  with two_dates_first two_dates_result show ?thesis by (intro conjI)
qed

text \<open>
  Claim C5, amended. The generic patterns are tried in their fixed order, and the first
  pattern that matches the line and whose text is a valid date gives the timestamp; a
  pattern that matches but whose text is no valid date is passed over like one that does
  not match. The timestamp is absent exactly when no pattern both matches and parses.
  This loop is what \<open>extractTimestamp\<close> returns when the two structured forms gave no date.
\<close>

theorem C5_first_parsable_match:
  "(try_patterns parse ps line = None \<longleftrightarrow> (\<forall>p\<in>set ps. pattern_date parse p line = None)) \<and>
   (\<forall>d. try_patterns parse ps line = Some d \<longleftrightarrow>
      (\<exists>i<length ps. pattern_date parse (ps ! i) line = Some d \<and>
         (\<forall>j<i. pattern_date parse (ps ! j) line = None))) \<and>
   (\<forall>D :: 'd date_env. json_timestamp D line = None \<longrightarrow> ws_timestamp D line = None \<longrightarrow>
      extractTimestamp D line = try_patterns (date_parse D) (tl TIMESTAMP_PATTERNS) line)"
  for parse :: "string \<Rightarrow> 'd option"
proof (intro conjI allI impI)
  show "try_patterns parse ps line = None \<longleftrightarrow> (\<forall>p\<in>set ps. pattern_date parse p line = None)"
    by (rule try_patterns_None)
next
  fix d
  show "try_patterns parse ps line = Some d \<longleftrightarrow>
      (\<exists>i<length ps. pattern_date parse (ps ! i) line = Some d \<and>
         (\<forall>j<i. pattern_date parse (ps ! j) line = None))"
    by (rule try_patterns_Some)
next
  fix D :: "'d date_env"
  assume "json_timestamp D line = None" "ws_timestamp D line = None"
  then show "extractTimestamp D line = try_patterns (date_parse D) (tl TIMESTAMP_PATTERNS) line"
    by (simp add: extractTimestamp_def)
qed

lemma two_dates_patterns:
  "pattern_date demo_date_parse (tl TIMESTAMP_PATTERNS ! 0) two_dates_line = None"
  "pattern_date demo_date_parse (tl TIMESTAMP_PATTERNS ! 1) two_dates_line =
     Some (Instant 2024 0 15 10 30 0 0)"
  by code_simp+

text \<open>
  The example line, where the second generic pattern is the first to give a date.
\<close>

theorem C5_witness:
  "json_timestamp demo_date two_dates_line = None \<and>
   ws_timestamp demo_date two_dates_line = None \<and>
   pattern_date demo_date_parse (tl TIMESTAMP_PATTERNS ! 0) two_dates_line = None \<and>
   pattern_date demo_date_parse (tl TIMESTAMP_PATTERNS ! 1) two_dates_line =
     Some (Instant 2024 0 15 10 30 0 0) \<and>
   try_patterns demo_date_parse (tl TIMESTAMP_PATTERNS) two_dates_line =
     Some (Instant 2024 0 15 10 30 0 0) \<and>
   extractTimestamp demo_date two_dates_line =
     try_patterns (date_parse demo_date) (tl TIMESTAMP_PATTERNS) two_dates_line"
proof -
  note c = C5_first_parsable_match[of demo_date_parse "tl TIMESTAMP_PATTERNS" two_dates_line]
  have len: "1 < length (tl TIMESTAMP_PATTERNS)" by (simp add: TIMESTAMP_PATTERNS_def)
  have before: "\<forall>j<1. pattern_date demo_date_parse (tl TIMESTAMP_PATTERNS ! j) two_dates_line = None"
    using two_dates_patterns(1) by simp
  from c have "try_patterns demo_date_parse (tl TIMESTAMP_PATTERNS) two_dates_line =
        Some (Instant 2024 0 15 10 30 0 0) \<longleftrightarrow>
      (\<exists>i<length (tl TIMESTAMP_PATTERNS).
         pattern_date demo_date_parse (tl TIMESTAMP_PATTERNS ! i) two_dates_line =
           Some (Instant 2024 0 15 10 30 0 0) \<and>
         (\<forall>j<i. pattern_date demo_date_parse (tl TIMESTAMP_PATTERNS ! j) two_dates_line = None))"
    by (elim conjE allE[of _ "Instant 2024 0 15 10 30 0 0"])
  moreover have "\<exists>i<length (tl TIMESTAMP_PATTERNS).
         pattern_date demo_date_parse (tl TIMESTAMP_PATTERNS ! i) two_dates_line =
           Some (Instant 2024 0 15 10 30 0 0) \<and>
         (\<forall>j<i. pattern_date demo_date_parse (tl TIMESTAMP_PATTERNS ! j) two_dates_line = None)"
    using len two_dates_patterns(2) before by (intro exI[of _ 1] conjI)
  ultimately have t: "try_patterns demo_date_parse (tl TIMESTAMP_PATTERNS) two_dates_line =
        Some (Instant 2024 0 15 10 30 0 0)" by (rule iffD2)
  from c two_dates_early have e: "extractTimestamp demo_date two_dates_line =
      try_patterns (date_parse demo_date) (tl TIMESTAMP_PATTERNS) two_dates_line"
    by (elim conjE allE[of _ demo_date] impE)
  from two_dates_early two_dates_patterns t e show ?thesis by (intro conjI)
qed


section \<open>Properties of the search matcher\<close>

lemma specials_are_syntax:
  assumes "c \<in> set regex_specials"
  shows "c \<in> set syntax_characters"
  using assms by (auto simp: regex_specials_def syntax_characters_def)

lemma plain_character:
  assumes "c \<notin> set regex_specials"
  shows "pattern_terms (c # cs) = and_then (Lit c) (pattern_terms cs)"
  using assms by (auto simp: regex_specials_def)

lemma escaped_character:
  assumes "c \<in> set regex_specials"
  shows "pattern_terms (backslash # c # cs) = and_then (Lit c) (pattern_terms cs)"
  using specials_are_syntax[OF assms] by simp

lemma escape_parses: "pattern_terms (escapeRegex q) = Parsed (map Lit q)"
proof (induction q)
  case Nil
  show ?case by (simp add: escapeRegex_def)
next
  case (Cons c cs)
  have e: "escapeRegex (c # cs) =
      (if c \<in> set regex_specials then [backslash, c] else [c]) @ escapeRegex cs"
    by (simp add: escapeRegex_def)
  show ?case
  proof (cases "c \<in> set regex_specials")
    case True
    then have "pattern_terms (escapeRegex (c # cs)) = and_then (Lit c) (pattern_terms (escapeRegex cs))"
      unfolding e using escaped_character[OF True] by simp
    with Cons.IH show ?thesis by (simp add: and_then_def)
  next
    case False
    then have "pattern_terms (escapeRegex (c # cs)) = and_then (Lit c) (pattern_terms (escapeRegex cs))"
      unfolding e using plain_character[OF False] by simp
    with Cons.IH show ?thesis by (simp add: and_then_def)
  qed
qed

lemma concat_singletons: "concat (map (\<lambda>x. [x]) xs) = xs"
  by (induction xs) simp_all

lemma Eps_run: "rx_run ic Eps = (\<lambda>st. [st])"
  by (rule ext) simp

lemma Seqs_Cons_run:
  "rx_run ic (Seqs (r # rs)) st = concat (map (rx_run ic (Seqs rs)) (rx_run ic r st))"
  by (cases rs) (simp_all add: Eps_run concat_singletons)

lemma Lit_run:
  "rx_run True (Lit c) (n, s, caps) =
     (case s of [] \<Rightarrow> [] | x # xs \<Rightarrow> if to_upper x = to_upper c then [(Suc n, xs, caps)] else [])"
  by (cases s) (simp_all add: Lit_def in_chars_def)

lemma literal_run:
  "rx_run True (Seqs (map Lit q)) (n, s, caps) =
     (if ci_prefix q s then [(n + length q, drop (length q) s, caps)] else [])"
proof (induction q arbitrary: n s)
  case Nil
  show ?case by simp
next
  case (Cons c cs)
  show ?case
  proof (cases s)
    case Nil
    then show ?thesis unfolding list.map Seqs_Cons_run by (simp add: Lit_run)
  next
    case (Cons x xs)
    then show ?thesis unfolding list.map Seqs_Cons_run by (simp add: Lit_run Cons.IH)
  qed
qed

lemma literal_test: "rx_test True (Seqs (map Lit q)) line \<longleftrightarrow> contains_ci q line"
proof -
  have "contains_ci q line \<longleftrightarrow> (\<exists>j\<le>length line. ci_prefix q (drop j line))"
    by (auto simp: contains_ci_def list_ex_iff less_Suc_eq_le simp del: upt_Suc)
  moreover have "rx_run True (Seqs (map Lit q)) (j, drop j line, []) \<noteq> [] \<longleftrightarrow>
      ci_prefix q (drop j line)" for j
    by (simp add: literal_run)
  ultimately show ?thesis unfolding rx_test_iff by simp
qed

lemma escaped_fragment: "regexp_fragment (escapeRegex q) ''i'' = Parsed (True, Seqs (map Lit q))"
  by (simp add: regexp_fragment_def escape_parses)

lemma conforms_Parsed:
  assumes "conforms E" "regexp_fragment p f = Parsed (ic, r)"
  shows "\<exists>x. RegExp_new E p f = Some x \<and> (\<forall>line. RegExp_test E x line = rx_test ic r line)"
  using assms(1)[unfolded conforms_def, rule_format, of p f] assms(2) by simp

lemma conforms_Throws:
  assumes "conforms E" "regexp_fragment p f = Throws"
  shows "RegExp_new E p f = None"
  using assms(1)[unfolded conforms_def, rule_format, of p f] assms(2) by simp

lemma bracket_throws: "regexp_fragment ''['' ''i'' = Throws"
  by code_simp

lemma bracket_query:
  "rx_exec False DELIMITED_REGEX ''/[/'' =
     Some \<lparr> m_index = 0, m_text = ''/[/'', m_groups = [(2, []), (1, ''['')] \<rparr>"
  by code_simp

lemma err_query: "rx_exec False DELIMITED_REGEX ''err'' = None"
  by code_simp

lemma err_found: "contains_ci ''err'' ''Error occurred''"
  by code_simp

lemma e_acute_query: "rx_exec False DELIMITED_REGEX [CHR 0xE9] = None"
  by code_simp

lemma e_acute_found: "contains_ci [CHR 0xE9] [CHR 0xC9]"
  by code_simp

lemma anchored_query:
  "rx_exec False DELIMITED_REGEX ''/^ERR/'' =
     Some \<lparr> m_index = 0, m_text = ''/^ERR/'', m_groups = [(2, []), (1, ''^ERR'')] \<rparr>"
  by code_simp

lemma anchored_fragment:
  "regexp_fragment ''^ERR'' ''i'' = Parsed (True, Seqs (Bol # map Lit ''ERR''))"
  by code_simp

lemma anchored_run:
  "rx_run True (Seqs (Bol # map Lit q)) (j, s, []) \<noteq> [] \<longleftrightarrow> j = 0 \<and> ci_prefix q s"
  unfolding Seqs_Cons_run by (simp add: literal_run)

lemma anchored_test: "rx_test True (Seqs (Bol # map Lit q)) line \<longleftrightarrow> ci_prefix q line"
  unfolding rx_test_iff anchored_run by auto

lemma literal_query:
  assumes "conforms E" "q \<noteq> []" "rx_exec False DELIMITED_REGEX q = None"
  shows "\<exists>x. buildSearchRegex E q = Some x \<and> (\<forall>line. RegExp_test E x line = contains_ci q line)"
proof -
  from conforms_Parsed[OF assms(1) escaped_fragment, of q]
  obtain x where x: "RegExp_new E (escapeRegex q) ''i'' = Some x"
    "\<forall>line. RegExp_test E x line = rx_test True (Seqs (map Lit q)) line"
    by blast
  from x(1) assms(2,3) have "buildSearchRegex E q = Some x"
    by (simp add: buildSearchRegex_def)
  moreover from x(2) have "\<forall>line. RegExp_test E x line = contains_ci q line"
    by (simp add: literal_test)
  ultimately show ?thesis by blast
qed

text \<open>
  Claim C8. With an engine that conforms to the pattern language: \<open>buildSearchRegex\<close>
  returns \<open>null\<close> for the empty query; for a query of the form \<open>/pattern/flags\<close> it returns
  what the constructor gives for the pattern with the given flags, or with \<open>i\<close> when there
  are none, and \<open>null\<close> when the constructor throws, as it does for \<open>/[/\<close>; the one for
  \<open>/^ERR/\<close> matches exactly the lines that begin with \<open>ERR\<close>, in either case; for any other
  query that is not empty it returns a regular expression that matches exactly the lines
  containing the query, in either case, so that the one for \<open>err\<close> matches
  \<open>Error occurred\<close>.
\<close>

theorem C8_buildSearchRegex:
  assumes "conforms E"
  shows "buildSearchRegex E [] = None \<and>
         (\<forall>q m. q \<noteq> [] \<longrightarrow> rx_exec False DELIMITED_REGEX q = Some m \<longrightarrow>
            buildSearchRegex E q =
              RegExp_new E (group_text m 1)
                (if group_text m 2 = [] then ''i'' else group_text m 2)) \<and>
         buildSearchRegex E ''/[/'' = None \<and>
         (\<forall>q. q \<noteq> [] \<longrightarrow> rx_exec False DELIMITED_REGEX q = None \<longrightarrow>
            (\<exists>x. buildSearchRegex E q = Some x \<and>
                 (\<forall>line. RegExp_test E x line = contains_ci q line))) \<and>
         (\<exists>x. buildSearchRegex E ''err'' = Some x \<and> RegExp_test E x ''Error occurred'') \<and>
         (\<exists>x. buildSearchRegex E ''/^ERR/'' = Some x \<and>
              (\<forall>line. RegExp_test E x line = ci_prefix ''ERR'' line))"
proof (intro conjI allI impI)
  show "buildSearchRegex E [] = None" by (simp add: buildSearchRegex_def)
next
  fix q m assume "q \<noteq> []" "rx_exec False DELIMITED_REGEX q = Some m"
  then show "buildSearchRegex E q =
      RegExp_new E (group_text m 1) (if group_text m 2 = [] then ''i'' else group_text m 2)"
    by (simp add: buildSearchRegex_def flags_or_i_def)
next
  have "buildSearchRegex E ''/[/'' = RegExp_new E ''['' ''i''"
    by (simp add: buildSearchRegex_def bracket_query flags_or_i_def group_text_def group_def)
  also have "\<dots> = None" using assms bracket_throws by (rule conforms_Throws)
  finally show "buildSearchRegex E ''/[/'' = None" .
next
  fix q assume "q \<noteq> []" "rx_exec False DELIMITED_REGEX q = None"
  with assms show "\<exists>x. buildSearchRegex E q = Some x \<and>
      (\<forall>line. RegExp_test E x line = contains_ci q line)"
    by (rule literal_query)
next
  from literal_query[OF assms _ err_query]
  obtain x where x: "buildSearchRegex E ''err'' = Some x"
    "\<forall>line. RegExp_test E x line = contains_ci ''err'' line"
    by auto
  from x(2) err_found have "RegExp_test E x ''Error occurred''" by simp
  with x(1) have "buildSearchRegex E ''err'' = Some x \<and> RegExp_test E x ''Error occurred''"
    by (intro conjI)
  then show "\<exists>x. buildSearchRegex E ''err'' = Some x \<and> RegExp_test E x ''Error occurred''"
    by (intro exI[of _ x])
next
  from conforms_Parsed[OF assms anchored_fragment]
  obtain x where x: "RegExp_new E ''^ERR'' ''i'' = Some x"
    "\<forall>line. RegExp_test E x line = rx_test True (Seqs (Bol # map Lit ''ERR'')) line"
    by blast
  have "buildSearchRegex E ''/^ERR/'' = RegExp_new E ''^ERR'' ''i''"
    by (simp add: buildSearchRegex_def anchored_query flags_or_i_def group_text_def group_def)
  with x(1) have 1: "buildSearchRegex E ''/^ERR/'' = Some x" by simp
  from x(2) have 2: "\<forall>line. RegExp_test E x line = ci_prefix ''ERR'' line"
    unfolding anchored_test .
  from 1 2 have "buildSearchRegex E ''/^ERR/'' = Some x \<and>
      (\<forall>line. RegExp_test E x line = ci_prefix ''ERR'' line)"
    by (intro conjI)
  then show "\<exists>x. buildSearchRegex E ''/^ERR/'' = Some x \<and>
      (\<forall>line. RegExp_test E x line = ci_prefix ''ERR'' line)"
    by (intro exI[of _ x])
qed

lemma fragment_engine_conforms: "conforms fragment_engine"
  unfolding conforms_def
proof (intro allI)
  fix pattern flags
  show "case regexp_fragment pattern flags of
          Parsed (ic, r) \<Rightarrow>
            (\<exists>x. RegExp_new fragment_engine pattern flags = Some x \<and>
                 (\<forall>line. RegExp_test fragment_engine x line = rx_test ic r line))
        | Throws \<Rightarrow> RegExp_new fragment_engine pattern flags = None
        | Beyond \<Rightarrow> True"
    by (cases "regexp_fragment pattern flags") (auto simp: fragment_engine_def)
qed

lemma anchored_lines:
  "ci_prefix ''ERR'' ''Error occurred'' \<and> \<not> ci_prefix ''ERR'' ''an error''"
  by code_simp

text \<open>
  The example engine conforms, and gives these results: nothing for the empty query and
  for \<open>/[/\<close>; for \<open>err\<close> a regular expression that matches \<open>Error occurred\<close>; for \<open>0xE9\<close> one that
  matches \<open>0xC9\<close>; for \<open>/^ERR/\<close> one that matches \<open>Error occurred\<close> and not \<open>an error\<close>.
\<close>

theorem C8_witness:
  "conforms fragment_engine \<and>
   buildSearchRegex fragment_engine [] = None \<and>
   buildSearchRegex fragment_engine ''/[/'' = None \<and>
   (\<exists>x. buildSearchRegex fragment_engine ''err'' = Some x \<and>
        RegExp_test fragment_engine x ''Error occurred'') \<and>
   (\<exists>x. buildSearchRegex fragment_engine [CHR 0xE9] = Some x \<and>
        RegExp_test fragment_engine x [CHR 0xC9]) \<and>
   (\<exists>x. buildSearchRegex fragment_engine ''/^ERR/'' = Some x \<and>
        RegExp_test fragment_engine x ''Error occurred'' \<and>
        \<not> RegExp_test fragment_engine x ''an error'')"
proof -
  note c = C8_buildSearchRegex[OF fragment_engine_conforms]
  from c have 1: "buildSearchRegex fragment_engine [] = None" by (rule conjunct1)
  from c have 2: "buildSearchRegex fragment_engine ''/[/'' = None" by (elim conjE)
  from c have 3: "\<exists>x. buildSearchRegex fragment_engine ''err'' = Some x \<and>
        RegExp_test fragment_engine x ''Error occurred''" by (elim conjE)
  from c have "\<forall>q. q \<noteq> [] \<longrightarrow> rx_exec False DELIMITED_REGEX q = None \<longrightarrow>
            (\<exists>x. buildSearchRegex fragment_engine q = Some x \<and>
                 (\<forall>line. RegExp_test fragment_engine x line = contains_ci q line))"
    by (elim conjE)
  from this[rule_format, OF _ e_acute_query]
  obtain x where x: "buildSearchRegex fragment_engine [CHR 0xE9] = Some x"
    "\<forall>line. RegExp_test fragment_engine x line = contains_ci [CHR 0xE9] line"
    by auto
  from x(2) e_acute_found have "RegExp_test fragment_engine x [CHR 0xC9]" by simp
  with x(1) have "buildSearchRegex fragment_engine [CHR 0xE9] = Some x \<and>
      RegExp_test fragment_engine x [CHR 0xC9]" by (intro conjI)
  then have 4: "\<exists>x. buildSearchRegex fragment_engine [CHR 0xE9] = Some x \<and>
      RegExp_test fragment_engine x [CHR 0xC9]" by (intro exI[of _ x])
  from c have "\<exists>x. buildSearchRegex fragment_engine ''/^ERR/'' = Some x \<and>
      (\<forall>line. RegExp_test fragment_engine x line = ci_prefix ''ERR'' line)"
    by (elim conjE)
  then obtain y where y: "buildSearchRegex fragment_engine ''/^ERR/'' = Some y"
    "\<forall>line. RegExp_test fragment_engine y line = ci_prefix ''ERR'' line"
    by auto
  from y(2) anchored_lines have "RegExp_test fragment_engine y ''Error occurred''"
    "\<not> RegExp_test fragment_engine y ''an error''" by simp_all
  with y(1) have "buildSearchRegex fragment_engine ''/^ERR/'' = Some y \<and>
      RegExp_test fragment_engine y ''Error occurred'' \<and>
      \<not> RegExp_test fragment_engine y ''an error''" by (intro conjI)
  then have 5: "\<exists>x. buildSearchRegex fragment_engine ''/^ERR/'' = Some x \<and>
      RegExp_test fragment_engine x ''Error occurred'' \<and>
      \<not> RegExp_test fragment_engine x ''an error''" by (intro exI[of _ y])
  from fragment_engine_conforms 1 2 3 4 5 show ?thesis by (intro conjI)
qed


end
